theory Spec2Isabelle
  imports Complex_Main "HOL-Library.AList" "HOL-Library.Multiset"
begin

section \<open>Strings\<close>

text \<open>
  A Python \<open>str\<close> is a sequence of Unicode code points. It is modelled as a list of
  natural numbers, one per code point, so that \<open>len\<close> is \<open>length\<close> and slicing is
  \<open>take\<close> and \<open>drop\<close>. A literal of the source is written \<open>lit ''...''\<close>.
\<close>

type_synonym str = "nat list"

definition lit :: "string \<Rightarrow> str" where
  "lit s = map of_char s"

datatype py_error = ValueError | NotADirectoryError | OSError

section \<open>chunk_text\<close>

text \<open>
  \<^verbatim>\<open>
  def chunk_text(text: str, size: int = CHUNK_CHAR_SIZE) -> List[str]:
      if not text:
          return []
      return [text[i:i+size] for i in range(0, len(text), size)]
  \<close>
  \<open>range(0, n, size)\<close> raises \<open>ValueError\<close> for \<open>size = 0\<close> and is empty for a negative
  \<open>size\<close>. For a positive \<open>size\<close> it yields \<open>0, size, 2 * size, ...\<close> below \<open>n\<close>, and
  the slice \<open>text[i:i+size]\<close> is \<open>take size (drop i text)\<close>. The comprehension is the
  recursion \<open>chunks_from\<close> on the start index \<open>i\<close>.
\<close>

definition CHUNK_CHAR_SIZE :: int where
  "CHUNK_CHAR_SIZE = 8000"

function chunks_from :: "nat \<Rightarrow> nat \<Rightarrow> 'a list \<Rightarrow> 'a list list" where
  "chunks_from i sz text =
     (if sz = 0 \<or> length text \<le> i then []
      else take sz (drop i text) # chunks_from (i + sz) sz text)"
  by pat_completeness auto
termination
  by (relation "measure (\<lambda>(i, sz, text). length text - i)") auto

definition chunk_text :: "'a list \<Rightarrow> int \<Rightarrow> py_error + 'a list list" where
  "chunk_text text sz =
     (if text = [] then Inr []
      else if sz = 0 then Inl ValueError
      else if sz < 0 then Inr []
      else Inr (chunks_from 0 (nat sz) text))"

section \<open>String operations of the standard library\<close>

text \<open>
  \<open>str.strip()\<close> removes leading and trailing whitespace, where whitespace is what
  \<open>str.isspace\<close> accepts: the code points below.
\<close>

definition isspace :: "nat \<Rightarrow> bool" where
  "isspace c \<longleftrightarrow>
     (9 \<le> c \<and> c \<le> 13) \<or> (28 \<le> c \<and> c \<le> 32) \<or> c = 133 \<or> c = 160 \<or> c = 5760
     \<or> (8192 \<le> c \<and> c \<le> 8202) \<or> c = 8232 \<or> c = 8233 \<or> c = 8239 \<or> c = 8287
     \<or> c = 12288"

definition strip :: "str \<Rightarrow> str" where
  "strip s = rev (dropWhile isspace (rev (dropWhile isspace s)))"

text \<open>
  \<open>str.lower()\<close>: the ASCII capitals and the Kelvin sign are the only characters whose
  lower case is an ASCII character. Every other character is left as it is here; the
  source only looks the result up in \<open>CODE_EXTENSIONS\<close>, whose entries are ASCII.
\<close>

definition lower_char :: "nat \<Rightarrow> nat" where
  "lower_char c = (if 65 \<le> c \<and> c \<le> 90 then c + 32 else if c = 8490 then 107 else c)"

definition lower :: "str \<Rightarrow> str" where
  "lower s = map lower_char s"

text \<open>\<open>sep.join(xs)\<close>\<close>

fun join :: "str \<Rightarrow> str list \<Rightarrow> str" where
  "join sep [] = []"
| "join sep [x] = x"
| "join sep (x # y # ys) = x @ sep @ join sep (y # ys)"

text \<open>\<open>str(n)\<close> for a natural number: its decimal digits.\<close>

fun py_str :: "nat \<Rightarrow> str" where
  "py_str n = (if n < 10 then [48 + n] else py_str (n div 10) @ [48 + n mod 10])"

section \<open>Paths\<close>

text \<open>
  A path is the list of its segments. \<open>os.path.join(d, name)\<close> and \<open>d / name\<close> are
  \<open>d @ [name]\<close>; names returned by \<open>os.scandir\<close> hold no separator. The string of a
  path joins the segments with \<open>os.sep\<close>.
\<close>

type_synonym path = "str list"

definition sep :: str where
  "sep = lit ''/''"

definition path_str :: "path \<Rightarrow> str" where
  "path_str p = join sep p"

text \<open>
  \<open>os.path.splitext\<close> (posixpath): the extension starts at the last dot that comes after
  the last separator, unless only dots come before it in the file name.
\<close>

fun rfind :: "nat \<Rightarrow> str \<Rightarrow> int" where
  "rfind c [] = - 1"
| "rfind c (x # xs) =
     (let r = rfind c xs in if 0 \<le> r then r + 1 else if x = c then 0 else - 1)"

definition splitext :: "str \<Rightarrow> str \<times> str" where
  "splitext p =
     (let sepIndex = rfind 47 p; dotIndex = rfind 46 p in
      if dotIndex > sepIndex
          \<and> list_ex (\<lambda>c. c \<noteq> 46) (drop (nat (sepIndex + 1)) (take (nat dotIndex) p))
      then (take (nat dotIndex) p, drop (nat dotIndex) p)
      else (p, []))"

text \<open>
  \<open>os.path.relpath(path, start)\<close> on two absolute, normalised paths: drop the common
  prefix, climb out of what is left of \<open>start\<close>.
\<close>

fun commonprefix :: "path \<Rightarrow> path \<Rightarrow> path" where
  "commonprefix (x # xs) (y # ys) = (if x = y then x # commonprefix xs ys else [])"
| "commonprefix xs ys = []"

definition relpath :: "path \<Rightarrow> path \<Rightarrow> path" where
  "relpath p start =
     (let i = length (commonprefix start p);
          rel_list = replicate (length start - i) (lit ''..'') @ drop i p
      in if rel_list = [] then [lit ''.''] else rel_list)"

section \<open>get_unique_repo_path\<close>

text \<open>
  \<^verbatim>\<open>
  def get_unique_repo_path(base_path: str) -> str:
      path = Path(base_path).resolve()
      if not path.exists():
          return str(path)
      counter = 1
      while True:
          new_path = path.parent / f"{path.name}_{counter}"
          if not new_path.exists():
              return str(new_path)
          counter += 1
  \<close>
  The file system is the predicate \<open>exists\<close> on paths; \<open>path\<close> is the resolved path.
  The loop has no bound of its own, so it is a partial function: \<open>None\<close> is the run
  that never returns.
\<close>

definition parent :: "path \<Rightarrow> path" where
  "parent p = butlast p"

definition name :: "path \<Rightarrow> str" where
  "name p = (if p = [] then [] else last p)"

definition sibling :: "path \<Rightarrow> nat \<Rightarrow> path" where
  "sibling p counter = parent p @ [name p @ lit ''_'' @ py_str counter]"

partial_function (option) next_free :: "(path \<Rightarrow> bool) \<Rightarrow> path \<Rightarrow> nat \<Rightarrow> path option" where
  "next_free exists p counter =
     (let new_path = sibling p counter in
      if \<not> exists new_path then Some new_path
      else next_free exists p (counter + 1))"

declare next_free.simps [code]

definition get_unique_repo_path :: "(path \<Rightarrow> bool) \<Rightarrow> path \<Rightarrow> path option" where
  "get_unique_repo_path exists p = (if \<not> exists p then Some p else next_free exists p 1)"

section \<open>File discovery\<close>

definition CODE_EXTENSIONS :: "str list" where
  "CODE_EXTENSIONS = map lit
     [''.py'', ''.js'', ''.jsx'', ''.ts'', ''.tsx'', ''.java'', ''.go'', ''.c'', ''.cpp'', ''.hpp'',
      ''.cs'', ''.rb'', ''.php'', ''.html'', ''.css'', ''.scss'', ''.yaml'',
      ''.yml'', ''.sh'', ''.rs'', ''.prisma'']"

definition EXCLUDE_DIRS :: "str list" where
  "EXCLUDE_DIRS = map lit
     [''node_modules'', ''venv'', ''.venv'', ''env'', ''.env'',
      ''build'', ''dist'', ''__pycache__'', ''.git'']"

text \<open>
  The directory tree. What is not a directory is a file: \<open>st_size\<close> is its size in
  bytes (\<open>None\<close> when \<open>os.path.getsize\<close> raises, as on a dangling link) and
  \<open>contents\<close> its text (\<open>None\<close> when opening, reading or decoding it raises). A
  directory lists its entries in the order \<open>os.scandir\<close> yields them; when \<open>readable\<close>
  is \<open>False\<close>, \<open>os.scandir\<close> raises \<open>PermissionError\<close>. Links that form a cycle have
  no tree and are left out.
\<close>

datatype fileinfo = Fileinfo (st_size: "nat option") (contents: "str option")

datatype node = File fileinfo | Dir (readable: bool) (entries: "(str \<times> node) list")

fun is_dir :: "node \<Rightarrow> bool" where
  "is_dir (Dir r es) = True"
| "is_dir (File fi) = False"

text \<open>
  \<^verbatim>\<open>
  def find_code_files_bfs(root: str) -> List[str]:
      files = []
      queue = deque([root])
      while queue:
          current_dir = queue.popleft()
          try:
              for entry in os.scandir(current_dir):
                  if entry.is_dir():
                      if entry.name not in EXCLUDE_DIRS:
                          queue.append(entry.path)
                  else:
                      ext = os.path.splitext(entry.name)[1].lower()
                      if ext in CODE_EXTENSIONS:
                          files.append(entry.path)
          except PermissionError:
              continue  # skip folders we can't open
      files.sort(key=lambda p: os.path.getsize(p))  # smallest first
      return files
  \<close>
  A path in \<open>queue\<close> or in \<open>files\<close> is kept together with the object it names, which
  is what \<open>os.scandir\<close>, \<open>os.path.getsize\<close> and \<open>open\<close> find there. \<open>scan\<close> is the
  \<open>for\<close> loop over the entries of one directory, \<open>bfs\<close> the \<open>while\<close> loop. \<open>bfs\<close>
  also records, in \<open>scanned\<close>, the directories it passed to \<open>os.scandir\<close>.
\<close>

type_synonym dirref = "path \<times> node"
type_synonym fileref = "path \<times> fileinfo"

fun scan :: "path \<Rightarrow> (str \<times> node) list \<Rightarrow> dirref list \<Rightarrow> fileref list
    \<Rightarrow> dirref list \<times> fileref list" where
  "scan current_dir [] queue files = (queue, files)"
| "scan current_dir ((entry_name, Dir r es) # rest) queue files =
     (if entry_name \<notin> set EXCLUDE_DIRS
      then scan current_dir rest (queue @ [(current_dir @ [entry_name], Dir r es)]) files
      else scan current_dir rest queue files)"
| "scan current_dir ((entry_name, File fi) # rest) queue files =
     (let ext = lower (snd (splitext entry_name)) in
      if ext \<in> set CODE_EXTENSIONS
      then scan current_dir rest queue (files @ [(current_dir @ [entry_name], fi)])
      else scan current_dir rest queue files)"

function bfs :: "dirref list \<Rightarrow> fileref list \<Rightarrow> path list
    \<Rightarrow> py_error + (fileref list \<times> path list)" where
  "bfs [] files scanned = Inr (files, scanned)"
| "bfs ((current_dir, File fi) # queue) files scanned = Inl NotADirectoryError"
| "bfs ((current_dir, Dir False es) # queue) files scanned =
     bfs queue files (scanned @ [current_dir])"
| "bfs ((current_dir, Dir True es) # queue) files scanned =
     (case scan current_dir es queue files of
        (queue', files') \<Rightarrow> bfs queue' files' (scanned @ [current_dir]))"
  by pat_completeness auto

lemma scan_queue:
  "fst (scan cur es queue files)
     = queue @ map (\<lambda>(n, x). (cur @ [n], x))
         (filter (\<lambda>(n, x). is_dir x \<and> n \<notin> set EXCLUDE_DIRS) es)"
  by (induction cur es queue files rule: scan.induct) (auto simp: Let_def)

lemma size_subdirs: "sum_list (map (\<lambda>e. size (snd e)) (filter P es)) < size (Dir r es)"
proof -
  have "sum_list (map (\<lambda>e. size (snd e)) (filter P es))
      \<le> size_list (size_prod (\<lambda>x. 0) size) es"
    by (induction es) auto
  then show ?thesis by simp
qed

termination bfs
proof (relation "measure (\<lambda>(queue, files, scanned). sum_list (map (\<lambda>e. size (snd e)) queue))",
    goal_cases)
  case 1
  then show ?case by simp
next
  case (2 current_dir es queue files scanned)
  then show ?case by simp
next
  case (3 current_dir es queue files scanned q' f')
  then have "q' = fst (scan current_dir es queue files)"
    by (metis fst_conv)
  then show ?case
    using size_subdirs [of "\<lambda>(n, x). is_dir x \<and> n \<notin> set EXCLUDE_DIRS" es True]
    by (simp add: scan_queue comp_def case_prod_unfold)
qed

text \<open>
  \<open>os.path.getsize\<close> of a discovered file, and the sort: \<open>list.sort\<close> computes the key
  of every element first, so an exception of \<open>getsize\<close> leaves the function before
  anything is returned, and then sorts stably on the keys.
\<close>

definition getsize :: "fileref \<Rightarrow> py_error + nat" where
  "getsize f = (case st_size (snd f) of None \<Rightarrow> Inl OSError | Some n \<Rightarrow> Inr n)"

fun sort_keys :: "fileref list \<Rightarrow> py_error + nat list" where
  "sort_keys [] = Inr []"
| "sort_keys (f # fs) =
     (case getsize f of
        Inl e \<Rightarrow> Inl e
      | Inr k \<Rightarrow> (case sort_keys fs of Inl e \<Rightarrow> Inl e | Inr ks \<Rightarrow> Inr (k # ks)))"

definition find_code_files_bfs :: "path \<Rightarrow> node \<Rightarrow> py_error + fileref list" where
  "find_code_files_bfs root_dir fs =
     (case bfs [(root_dir, fs)] [] [] of
        Inl e \<Rightarrow> Inl e
      | Inr (files, scanned) \<Rightarrow>
          (case sort_keys files of
             Inl e \<Rightarrow> Inl e
           | Inr ks \<Rightarrow> Inr (map snd (sort_key fst (zip ks files)))))"

text \<open>The directories \<open>find_code_files_bfs\<close> passes to \<open>os.scandir\<close>, in order.\<close>

definition scanned_dirs :: "path \<Rightarrow> node \<Rightarrow> py_error + path list" where
  "scanned_dirs root_dir fs =
     (case bfs [(root_dir, fs)] [] [] of Inl e \<Rightarrow> Inl e | Inr (files, scanned) \<Rightarrow> Inr scanned)"

section \<open>read_file\<close>

text \<open>
  \<^verbatim>\<open>
  def read_file(path: str) -> str:
      try:
          with open(path, "r", encoding="utf-8") as fh:
              return fh.read()
      except Exception:
          return ""
  \<close>
\<close>

definition read_file :: "fileref \<Rightarrow> str" where
  "read_file f = (case contents (snd f) of None \<Rightarrow> [] | Some s \<Rightarrow> s)"

section \<open>ollama_generate\<close>

text \<open>
  \<^verbatim>\<open>
  def ollama_generate(prompt: str, model: str) -> str:
      try:
          resp = requests.post(OLLAMA_API_URL, json={"model": model, "prompt": prompt},
                               stream=True, timeout=300)
          resp.raise_for_status()
          output = ""
          for line in resp.iter_lines():
              if line:
                  data = json.loads(line.decode("utf-8"))
                  if "response" in data:
                      output += data["response"]
          return output.strip()
      except Exception as e:
          return f"[Error calling Ollama: {e}]"
  \<close>
  What the backend does with one request is an \<open>outcome\<close>: the request fails before
  any line is read (\<open>requests.post\<close> or \<open>raise_for_status\<close> raises), or lines arrive.
  A line is empty, or cannot be decoded, parsed or used (an exception is raised), or is
  data without the key \<open>response\<close>, or an object with a text under \<open>response\<close>; or, in
  place of a line, \<open>iter_lines\<close> raises: the stream ends abnormally there. The text
  carried by a failure is the text of the exception.

  The backend itself is a function of the requests made so far and of the request, so
  that it may answer the same request differently each time; the list of requests made
  is threaded through every call.
\<close>

datatype line = Blank | Malformed str | No_response | Response str | Aborted str

datatype outcome = Failed str | Lines "line list"

type_synonym request = "str \<times> str"

type_synonym backend = "request list \<Rightarrow> request \<Rightarrow> outcome"

fun read_lines :: "line list \<Rightarrow> str \<Rightarrow> str + str" where
  "read_lines [] output = Inr output"
| "read_lines (Blank # ls) output = read_lines ls output"
| "read_lines (Malformed e # ls) output = Inl e"
| "read_lines (No_response # ls) output = read_lines ls output"
| "read_lines (Response s # ls) output = read_lines ls (output @ s)"
| "read_lines (Aborted e # ls) output = Inl e"

definition error_text :: "str \<Rightarrow> str" where
  "error_text e = lit ''[Error calling Ollama: '' @ e @ lit '']''"

definition reply :: "outcome \<Rightarrow> str" where
  "reply r =
     (case r of
        Failed e \<Rightarrow> error_text e
      | Lines ls \<Rightarrow>
          (case read_lines ls [] of Inl e \<Rightarrow> error_text e | Inr output \<Rightarrow> strip output))"

definition ollama_generate :: "backend \<Rightarrow> str \<Rightarrow> str \<Rightarrow> request list \<Rightarrow> str \<times> request list" where
  "ollama_generate backend prompt model reqs =
     (reply (backend reqs (prompt, model)), reqs @ [(prompt, model)])"

section \<open>ollama_summarize_text_blocks\<close>

text \<open>
  \<^verbatim>\<open>
  def ollama_summarize_text_blocks(blocks, file_path, model="gemma:2b") -> str:
      chunk_summaries = []
      for chunk in blocks:
          prompt = ( ... f"Code excerpt:\n{chunk}\n\n" )
          text = ollama_generate(prompt, model)
          chunk_summaries.append(text)
          time.sleep(0.2)
      combined_prompt = (
          f"Combine these chunk-level summaries for file {file_path}:\n"
          "1) File summary\n2) Key components\n3) Actionable notes\n\n"
          "Chunk summaries:\n\n" + "\n\n---\n\n".join(chunk_summaries)
      )
      return ollama_generate(combined_prompt, model)
  \<close>
\<close>

definition chunk_prompt :: "str \<Rightarrow> str \<Rightarrow> str" where
  "chunk_prompt file_path chunk =
     lit ''You are an expert software engineer and technical writer.\<newline>''
     @ lit ''Analyze the following code excerpt from the file '' @ [39] @ file_path @ [39]
     @ lit '' and produce a clear, developer-friendly summary.\<newline>\<newline>''
     @ lit ''For each excerpt, provide the following:\<newline>''
     @ lit ''1) One-sentence purpose.\<newline>''
     @ lit ''2) Key components.\<newline>''
     @ lit ''3) Functionality description.\<newline>''
     @ lit ''4) Dependencies.\<newline>''
     @ lit ''5) Edge cases or considerations.\<newline>\<newline>''
     @ lit ''Code excerpt:\<newline>'' @ chunk @ lit ''\<newline>\<newline>''"

definition combined_prompt :: "str \<Rightarrow> str list \<Rightarrow> str" where
  "combined_prompt file_path chunk_summaries =
     lit ''Combine these chunk-level summaries for file '' @ file_path @ lit '':\<newline>''
     @ lit ''1) File summary\<newline>2) Key components\<newline>3) Actionable notes\<newline>\<newline>''
     @ lit ''Chunk summaries:\<newline>\<newline>''
     @ join (lit ''\<newline>\<newline>---\<newline>\<newline>'') chunk_summaries"

fun summarize_chunks :: "backend \<Rightarrow> str list \<Rightarrow> str \<Rightarrow> str \<Rightarrow> str list \<Rightarrow> request list
    \<Rightarrow> str list \<times> request list" where
  "summarize_chunks backend [] file_path model chunk_summaries reqs = (chunk_summaries, reqs)"
| "summarize_chunks backend (chunk # blocks) file_path model chunk_summaries reqs =
     (case ollama_generate backend (chunk_prompt file_path chunk) model reqs of
        (text, reqs') \<Rightarrow>
          summarize_chunks backend blocks file_path model (chunk_summaries @ [text]) reqs')"

definition ollama_summarize_text_blocks :: "backend \<Rightarrow> str list \<Rightarrow> str \<Rightarrow> str \<Rightarrow> request list
    \<Rightarrow> str \<times> request list" where
  "ollama_summarize_text_blocks backend blocks file_path model reqs =
     (case summarize_chunks backend blocks file_path model [] reqs of
        (chunk_summaries, reqs') \<Rightarrow>
          ollama_generate backend (combined_prompt file_path chunk_summaries) model reqs')"

section \<open>main\<close>

text \<open>
  \<^verbatim>\<open>
      code_files = find_code_files_bfs(repo_root)
      if not code_files:
          print("[!] No code files found. Exiting.")
          return
      file_summaries = {}
      for i, fpath in enumerate(code_files):
          rel = os.path.relpath(fpath, repo_root)
          content = read_file(fpath)
          if not content.strip():
              file_summaries[rel] = "[empty or binary file]"
              continue
          blocks = chunk_text(content, CHUNK_CHAR_SIZE)
          summ = ollama_summarize_text_blocks(blocks, rel, model=args.model)
          file_summaries[rel] = summ
      write_docx(args.out, args.repo, repo_root, deps_info, file_summaries)
  \<close>
  \<open>main\<close> is modelled from the cloned tree on: \<open>repo_root\<close> is the path of the clone
  and \<open>fs\<close> the tree there. Parsing the arguments, cloning, \<open>detect_top_level_info\<close>,
  \<open>write_docx\<close> and the removal of the clone make no request and do not touch the
  dictionary; they are left out. The result is the dictionary handed to \<open>write_docx\<close>,
  together with the requests made, or \<open>No_code_files\<close> for the early return. A dictionary keeps its keys in insertion order and
  an assignment to a key it has replaces the value in place: an association list with
  \<open>AList.update\<close>. The key is the relative path, as its list of segments.
\<close>

definition EMPTY_MARKER :: str where
  "EMPTY_MARKER = lit ''[empty or binary file]''"

fun summarize_files :: "backend \<Rightarrow> str \<Rightarrow> path \<Rightarrow> fileref list \<Rightarrow> (path \<times> str) list
    \<Rightarrow> request list \<Rightarrow> py_error + ((path \<times> str) list \<times> request list)" where
  "summarize_files backend model repo_root [] file_summaries reqs = Inr (file_summaries, reqs)"
| "summarize_files backend model repo_root (f # code_files) file_summaries reqs =
     (let rel = relpath (fst f) repo_root;
          content = read_file f
      in if strip content = []
         then summarize_files backend model repo_root code_files
                (AList.update rel EMPTY_MARKER file_summaries) reqs
         else
           (case chunk_text content CHUNK_CHAR_SIZE of
              Inl e \<Rightarrow> Inl e
            | Inr blocks \<Rightarrow>
                (case ollama_summarize_text_blocks backend blocks (path_str rel) model reqs of
                   (summ, reqs') \<Rightarrow>
                     summarize_files backend model repo_root code_files
                       (AList.update rel summ file_summaries) reqs')))"

datatype run = No_code_files | Summaries "(path \<times> str) list"

definition main :: "backend \<Rightarrow> str \<Rightarrow> path \<Rightarrow> node \<Rightarrow> py_error + (run \<times> request list)" where
  "main backend model repo_root fs =
     (case find_code_files_bfs repo_root fs of
        Inl e \<Rightarrow> Inl e
      | Inr code_files \<Rightarrow>
          if code_files = [] then Inr (No_code_files, [])
          else
            (case summarize_files backend model repo_root code_files [] [] of
               Inl e \<Rightarrow> Inl e
             | Inr (file_summaries, reqs) \<Rightarrow> Inr (Summaries file_summaries, reqs)))"

text \<open>Directory names are unique within a directory, at every level of the tree.\<close>

fun unique_names :: "node \<Rightarrow> bool" where
  "unique_names (File fi) = True"
| "unique_names (Dir r es) = (distinct (map fst es) \<and> (\<forall>e \<in> set es. unique_names (snd e)))"

section \<open>Notions used in the statements\<close>

text \<open>The number a string of decimal digits denotes.\<close>

definition decimal :: "str \<Rightarrow> nat" where
  "decimal ds = foldl (\<lambda>a d. 10 * a + (d - 48)) 0 ds"

text \<open>
  Of the lines of a stream: the texts under \<open>response\<close>, in arrival order, and the
  first exception raised while the lines are read, if any.
\<close>

fun fragments :: "line list \<Rightarrow> str list" where
  "fragments [] = []"
| "fragments (Response s # ls) = s # fragments ls"
| "fragments (l # ls) = fragments ls"

fun failure :: "line list \<Rightarrow> str option" where
  "failure [] = None"
| "failure (Malformed e # ls) = Some e"
| "failure (Aborted e # ls) = Some e"
| "failure (l # ls) = failure ls"

section \<open>Example inputs\<close>

text \<open>A backend whose stream breaks after one fragment, and one that answers \<open>ok\<close>.\<close>

definition breaking_backend :: backend where
  "breaking_backend reqs r = Lines [Response (lit ''partial summary''), Aborted (lit ''connection reset'')]"

definition ok_backend :: backend where
  "ok_backend reqs r = Lines [Response (lit ''ok'')]"

definition failing_backend :: backend where
  "failing_backend reqs r = Failed (lit ''timed out'')"

section \<open>Notions used in the proofs about discovery\<close>

text \<open>
  What one run of the \<open>for\<close> loop appends to the queue and to the list of files;
  a path that extends \<open>root_dir\<close> by segments none of which is an excluded name; and
  the paths of all files of a tree.
\<close>

fun new_dirs :: "path \<Rightarrow> (str \<times> node) list \<Rightarrow> dirref list" where
  "new_dirs cur [] = []"
| "new_dirs cur ((n, Dir r es) # rest) =
     (if n \<notin> set EXCLUDE_DIRS then (cur @ [n], Dir r es) # new_dirs cur rest
      else new_dirs cur rest)"
| "new_dirs cur ((n, File fi) # rest) = new_dirs cur rest"

fun new_files :: "path \<Rightarrow> (str \<times> node) list \<Rightarrow> fileref list" where
  "new_files cur [] = []"
| "new_files cur ((n, Dir r es) # rest) = new_files cur rest"
| "new_files cur ((n, File fi) # rest) =
     (if lower (snd (splitext n)) \<in> set CODE_EXTENSIONS
      then (cur @ [n], fi) # new_files cur rest
      else new_files cur rest)"

definition clean :: "path \<Rightarrow> path \<Rightarrow> bool" where
  "clean root_dir p \<longleftrightarrow>
     take (length root_dir) p = root_dir
     \<and> (\<forall>s \<in> set (drop (length root_dir) p). s \<notin> set EXCLUDE_DIRS)"

fun all_paths :: "path \<Rightarrow> node \<Rightarrow> path list" where
  "all_paths p (File fi) = [p]"
| "all_paths p (Dir r es) = concat (map (\<lambda>e. all_paths (p @ [fst e]) (snd e)) es)"

text \<open>Every file of the tree has a size that \<open>os.path.getsize\<close> can read.\<close>

fun all_sized :: "node \<Rightarrow> bool" where
  "all_sized (File fi) = (st_size fi \<noteq> None)"
| "all_sized (Dir r es) = (\<forall>e \<in> set es. all_sized (snd e))"

text \<open>
  The paths that a state of the traversal can still return: those of the files found so
  far and of all the files below the directories of the queue.
\<close>

definition pending :: "dirref list \<Rightarrow> fileref list \<Rightarrow> path multiset" where
  "pending queue files =
     mset (map fst files) + mset (concat (map (\<lambda>q. all_paths (fst q) (snd q)) queue))"

text \<open>The number of requests that \<open>main\<close> makes for one file.\<close>

definition calls_for :: "fileref \<Rightarrow> nat" where
  "calls_for f =
     (if strip (read_file f) = [] then 0
      else length (chunks_from 0 (nat CHUNK_CHAR_SIZE) (read_file f)) + 1)"

text \<open>A tree with an excluded directory, below a root that is itself named \<open>build\<close>.\<close>

definition example_root :: path where
  "example_root = [lit ''srv'', lit ''build'']"

definition example_tree :: node where
  "example_tree =
     Dir True
       [(lit ''src'', Dir True
           [(lit ''b.py'', File (Fileinfo (Some 18) (Some (lit ''import os\<newline>print(2)'')))),
            (lit ''a.py'', File (Fileinfo (Some 8) (Some (lit ''print(1)'')))),
            (lit ''blank.js'', File (Fileinfo (Some 3) (Some (lit '' \<newline> '')))),
            (lit ''empty.ts'', File (Fileinfo (Some 0) (Some []))),
            (lit ''binary.go'', File (Fileinfo (Some 4) None)),
            (lit ''notes.txt'', File (Fileinfo (Some 5) (Some (lit ''notes''))))]),
        (lit ''node_modules'', Dir True
           [(lit ''c.py'', File (Fileinfo (Some 5) (Some (lit ''x = 1''))))]),
        (lit ''locked'', Dir False [])]"

text \<open>What discovery returns on it: the files of \<open>src\<close> with a code extension, by size.\<close>

definition example_files :: "fileref list" where
  "example_files =
     [(example_root @ [lit ''src'', lit ''empty.ts''], Fileinfo (Some 0) (Some [])),
      (example_root @ [lit ''src'', lit ''blank.js''], Fileinfo (Some 3) (Some (lit '' \<newline> ''))),
      (example_root @ [lit ''src'', lit ''binary.go''], Fileinfo (Some 4) None),
      (example_root @ [lit ''src'', lit ''a.py''], Fileinfo (Some 8) (Some (lit ''print(1)''))),
      (example_root @ [lit ''src'', lit ''b.py''],
         Fileinfo (Some 18) (Some (lit ''import os\<newline>print(2)'')))]"

section \<open>Properties of chunk_text\<close>

declare chunks_from.simps [simp del]

lemma concat_chunks_from:
  "0 < sz \<Longrightarrow> concat (chunks_from i sz t) = drop i t"
proof (induction i sz t rule: chunks_from.induct)
  case (1 i sz t)
  show ?case
  proof (cases "length t \<le> i")
    case True
    then show ?thesis by (simp add: chunks_from.simps [of i])
  next
    case False
    with 1 have "concat (chunks_from (i + sz) sz t) = drop (i + sz) t"
      by simp
    moreover have "take sz (drop i t) @ drop (i + sz) t = drop i t"
      by (metis add.commute append_take_drop_id drop_drop)
    ultimately show ?thesis
      using False "1.prems" by (simp add: chunks_from.simps [of i])
  qed
qed

lemma div_one_chunk: "0 < d \<Longrightarrow> d \<le> sz \<Longrightarrow> (d + sz - 1) div sz = (1::nat)"
  by (rule div_nat_eqI) auto

lemma neg_div_ceil:
  fixes a b :: int
  assumes "0 < b"
  shows "- (- a div b) = (a + b - 1) div b"
proof -
  define q r where "q = a div b" and "r = a mod b"
  have a: "a = b * q + r" and r: "0 \<le> r" "r < b"
    using assms by (simp_all add: q_def r_def)
  show ?thesis
  proof (cases "r = 0")
    case True
    have "(a + b - 1) div b = (b - 1 + q * b) div b" using a True by (simp add: algebra_simps)
    also have "\<dots> = q" using assms by simp
    finally have 1: "(a + b - 1) div b = q" .
    have "- a = (- q) * b" using a True by simp
    then have "- a div b = - q" using assms by (simp del: mult_minus_left)
    then show ?thesis using 1 by simp
  next
    case False
    have "(a + b - 1) div b = (r - 1 + (q + 1) * b) div b" using a by (simp add: algebra_simps)
    also have "\<dots> = q + 1" using assms r False by simp
    finally have 1: "(a + b - 1) div b = q + 1" .
    have "- a = (b - r) + (- q - 1) * b" using a by (simp add: algebra_simps)
    then have "- a div b = (b - r + (- q - 1) * b) div b" by simp
    also have "\<dots> = - q - 1" using assms r False by simp
    finally show ?thesis using 1 by simp
  qed
qed

lemma ceiling_nat_div:
  fixes m n :: nat
  assumes "0 < n"
  shows "\<lceil>real m / real n\<rceil> = int ((m + n - 1) div n)"
proof -
  have "\<lceil>real m / real n\<rceil> = \<lceil>real_of_int (int m) / real_of_int (int n)\<rceil>"
    by simp
  also have "\<dots> = - (- int m div int n)"
    by (rule ceiling_divide_eq_div)
  also have "\<dots> = (int m + int n - 1) div int n"
    using assms by (simp add: neg_div_ceil)
  also have "\<dots> = int ((m + n - 1) div n)"
  proof -
    have "int m + int n - 1 = int (m + n - 1)" using assms by auto
    then show ?thesis by (simp only: zdiv_int)
  qed
  finally show ?thesis .
qed

lemma div_next_chunk: "0 < sz \<Longrightarrow> sz < d \<Longrightarrow> (d + sz - 1) div sz = Suc ((d - sz + sz - 1) div sz)" for d :: nat
proof -
  assume "0 < sz" "sz < d"
  then have "d + sz - 1 = (d - sz + sz - 1) + sz" by simp
  then have "(d + sz - 1) div sz = ((d - sz + sz - 1) + sz) div sz" by simp
  also have "\<dots> = Suc ((d - sz + sz - 1) div sz)" using \<open>0 < sz\<close> by (simp only: div_add_self2)
  finally show ?thesis .
qed

lemma length_chunks_from:
  "0 < sz \<Longrightarrow> length (chunks_from i sz t) = (length t - i + sz - 1) div sz"
proof (induction i sz t rule: chunks_from.induct)
  case (1 i sz t)
  show ?case
  proof (cases "length t \<le> i")
    case True
    then show ?thesis using "1.prems" by (simp add: chunks_from.simps [of i])
  next
    case False
    with 1 have ih: "length (chunks_from (i + sz) sz t)
        = (length t - (i + sz) + sz - 1) div sz"
      by simp
    have "(length t - i + sz - 1) div sz
        = Suc ((length t - (i + sz) + sz - 1) div sz)"
    proof (cases "length t - i \<le> sz")
      case True
      with False "1.prems" have "(length t - i + sz - 1) div sz = 1"
        by (intro div_one_chunk) auto
      moreover from True "1.prems" have "(length t - (i + sz) + sz - 1) div sz = 0"
        by simp
      ultimately show ?thesis by simp
    next
      case gt: False
      then have "(length t - i + sz - 1) div sz = Suc ((length t - i - sz + sz - 1) div sz)"
        using "1.prems" by (intro div_next_chunk) auto
      then show ?thesis by simp
    qed
    with ih show ?thesis
      using False "1.prems" by (simp add: chunks_from.simps [of i])
  qed
qed

text \<open>
  C1. For every text and every positive chunk size, \<open>chunk_text\<close> returns chunks whose
  concatenation in index order is the text, whose lengths sum to the length of the text,
  and whose number is \<open>ceil(len(text) / size)\<close> for a non-empty text and 0 for the
  empty text.
\<close>

theorem chunk_text_partition:
  assumes "0 < sz"
  shows "\<exists>cs. chunk_text t sz = Inr cs
           \<and> concat cs = t
           \<and> sum_list (map length cs) = length t
           \<and> int (length cs) = (if t = [] then 0 else \<lceil>real (length t) / real_of_int sz\<rceil>)"
proof (cases "t = []")
  case True
  then show ?thesis by (simp add: chunk_text_def)
next
  case False
  define cs where "cs = chunks_from 0 (nat sz) t"
  have n: "0 < nat sz" using assms by simp
  have 1: "chunk_text t sz = Inr cs"
    using assms False by (simp add: chunk_text_def cs_def)
  have 2: "concat cs = t"
    using concat_chunks_from [OF n, of 0 t] by (simp add: cs_def)
  have 3: "sum_list (map length cs) = length t"
    using 2 by (metis length_concat)
  have "length cs = (length t + nat sz - 1) div nat sz"
    using length_chunks_from [OF n, of 0 t] by (simp add: cs_def)
  then have "int (length cs) = \<lceil>real (length t) / real (nat sz)\<rceil>"
    using ceiling_nat_div [OF n, of "length t"] by simp
  then have 4: "int (length cs) = \<lceil>real (length t) / real_of_int sz\<rceil>"
    using assms by simp
  show ?thesis using 1 2 3 4 False by simp
qed

theorem chunk_text_partition_witness:
  "(0::int) < 2 \<and> chunk_text ''abcde'' 2 = Inr [''ab'', ''cd'', ''e'']
     \<and> concat [''ab'', ''cd'', ''e''] = ''abcde''
     \<and> int (length [''ab'', ''cd'', ''e'']) = \<lceil>real (length ''abcde'') / real_of_int 2\<rceil>"
proof -
  have h: "(0::int) < 2" by simp
  have e: "chunk_text ''abcde'' 2 = Inr [''ab'', ''cd'', ''e'']"
    by (simp add: chunk_text_def chunks_from.simps)
  show ?thesis using h e chunk_text_partition [OF h, of "''abcde''"] by simp
qed
section \<open>Properties of get_unique_repo_path\<close>

declare py_str.simps [simp del]

lemma decimal_py_str: "decimal (py_str n) = n"
proof (induction n rule: py_str.induct)
  case (1 n)
  show ?case
  proof (cases "n < 10")
    case True
    then show ?thesis by (simp add: decimal_def py_str.simps [of n])
  next
    case False
    with 1 have "decimal (py_str (n div 10)) = n div 10" by simp
    then have "decimal (py_str (n div 10) @ [48 + n mod 10]) = n"
      by (simp add: decimal_def)
    then show ?thesis using False by (subst py_str.simps) simp
  qed
qed

lemma inj_py_str: "py_str m = py_str n \<Longrightarrow> m = n"
  by (metis decimal_py_str)

lemma inj_sibling: "inj (sibling p)"
proof (rule injI)
  fix j k
  assume "sibling p j = sibling p k"
  then have "py_str j = py_str k" by (simp add: sibling_def)
  then show "j = k" by (rule inj_py_str)
qed

lemma free_sibling:
  assumes "finite {q. exists q}"
  shows "\<exists>k\<ge>1. \<not> exists (sibling p k)"
proof (rule ccontr)
  assume "\<not> (\<exists>k\<ge>1. \<not> exists (sibling p k))"
  then have "sibling p ` {1..} \<subseteq> {q. exists q}" by auto
  then have "finite (sibling p ` {1..})" using assms by (rule finite_subset)
  then have "finite {1::nat ..}"
    using inj_sibling [of p] by (metis finite_imageD inj_on_subset subset_UNIV)
  then show False by (simp add: infinite_Ici)
qed

lemma next_free_least:
  assumes "counter \<le> k" "\<not> exists (sibling p k)"
    and "\<forall>j. counter \<le> j \<and> j < k \<longrightarrow> exists (sibling p j)"
  shows "next_free exists p counter = Some (sibling p k)"
  using assms
proof (induction "k - counter" arbitrary: counter)
  case 0
  then have "counter = k" by simp
  then show ?case using 0 by (subst next_free.simps) simp
next
  case (Suc d)
  then have "exists (sibling p counter)" by simp
  moreover have "next_free exists p (counter + 1) = Some (sibling p k)"
    using Suc by (intro Suc.hyps(1)) auto
  ultimately show ?case by (subst next_free.simps) simp
qed

text \<open>
  C9. In a file system that holds finitely many paths, \<open>get_unique_repo_path\<close>
  returns: the path \<open>P\<close> itself when \<open>P\<close> does not exist, and otherwise the sibling
  \<open>P_k\<close> with the least \<open>k \<ge> 1\<close> that does not exist. The path returned never
  exists, so nothing that exists at \<open>P\<close> is written over.
\<close>

theorem get_unique_repo_path_free:
  assumes "finite {q. exists q}"
  shows "\<exists>r. get_unique_repo_path exists p = Some r \<and> \<not> exists r
           \<and> (if \<not> exists p then r = p
               else \<exists>k\<ge>1. r = sibling p k \<and> (\<forall>j. 1 \<le> j \<and> j < k \<longrightarrow> exists (sibling p j)))"
proof (cases "exists p")
  case False
  then show ?thesis by (simp add: get_unique_repo_path_def)
next
  case True
  from free_sibling [OF assms] obtain k0 where "1 \<le> k0" "\<not> exists (sibling p k0)" by blast
  define k where "k = (LEAST k. 1 \<le> k \<and> \<not> exists (sibling p k))"
  have k: "1 \<le> k \<and> \<not> exists (sibling p k)"
    unfolding k_def using \<open>1 \<le> k0\<close> \<open>\<not> exists (sibling p k0)\<close>
    by (rule_tac LeastI [of _ k0]) simp
  have least: "\<forall>j. 1 \<le> j \<and> j < k \<longrightarrow> exists (sibling p j)"
    unfolding k_def using not_less_Least by blast
  have "next_free exists p 1 = Some (sibling p k)"
    using k least by (intro next_free_least) auto
  then show ?thesis using True k least by (auto simp: get_unique_repo_path_def)
qed


theorem get_unique_repo_path_free_witness:
  "finite {q. q \<in> set [[lit ''tmp'', lit ''repo''], [lit ''tmp'', lit ''repo_1'']]}
   \<and> get_unique_repo_path
         (\<lambda>q. q \<in> set [[lit ''tmp'', lit ''repo''], [lit ''tmp'', lit ''repo_1'']])
         [lit ''tmp'', lit ''repo'']
       = Some [lit ''tmp'', lit ''repo_2'']"
proof -
  have f: "finite {q. q \<in> set [[lit ''tmp'', lit ''repo''], [lit ''tmp'', lit ''repo_1'']]}"
    by simp
  have e: "get_unique_repo_path
         (\<lambda>q. q \<in> set [[lit ''tmp'', lit ''repo''], [lit ''tmp'', lit ''repo_1'']])
         [lit ''tmp'', lit ''repo'']
       = Some [lit ''tmp'', lit ''repo_2'']"
    by code_simp
  show ?thesis
    using f e get_unique_repo_path_free [OF f, of "[lit ''tmp'', lit ''repo'']"] by simp
qed

section \<open>Properties of ollama_generate\<close>


lemma read_lines_eq:
  "read_lines ls acc
     = (case failure ls of Some e \<Rightarrow> Inl e | None \<Rightarrow> Inr (acc @ concat (fragments ls)))"
  by (induction ls acc rule: read_lines.induct) (simp_all split: option.split)

text \<open>
  C4 (as amended). \<open>ollama_generate\<close> makes one request. When every line of the
  stream is read without an exception, the result is the concatenation of the response
  fragments in arrival order, stripped of leading and trailing whitespace. When the
  request fails, a line cannot be used or the stream ends abnormally, the result is the
  error marker with the text of the exception: the text accumulated so far is discarded,
  whether or not there was any.
\<close>

theorem ollama_generate_stream:
  "ollama_generate backend prompt model reqs =
     (case backend reqs (prompt, model) of
        Failed e \<Rightarrow> error_text e
      | Lines ls \<Rightarrow>
          (case failure ls of
             Some e \<Rightarrow> error_text e
           | None \<Rightarrow> strip (concat (fragments ls))),
      reqs @ [(prompt, model)])"
  by (simp add: ollama_generate_def reply_def read_lines_eq split: outcome.split option.split)

theorem ollama_generate_stream_witness:
  "ollama_generate ok_backend (lit ''p'') (lit ''gemma:2b'') []
     = (lit ''ok'', [(lit ''p'', lit ''gemma:2b'')])"
  using ollama_generate_stream [of ok_backend "lit ''p''" "lit ''gemma:2b''" "[]"]
  by (simp add: ok_backend_def strip_def isspace_def lit_def)

text \<open>
  C4 as stated fails: a stream that breaks after the fragment \<open>partial summary\<close>
  returns the error marker, not the fragment.
\<close>

theorem partial_stream_discarded:
  "fst (ollama_generate breaking_backend (lit ''p'') (lit ''gemma:2b'') [])
     = lit ''[Error calling Ollama: connection reset]''
   \<and> fst (ollama_generate breaking_backend (lit ''p'') (lit ''gemma:2b'') [])
     \<noteq> lit ''partial summary''"
  by (simp add: ollama_generate_def breaking_backend_def reply_def error_text_def lit_def)

section \<open>Properties of ollama_summarize_text_blocks\<close>

lemma combined_prompt_Nil:
  "combined_prompt file_path [] =
     lit ''Combine these chunk-level summaries for file '' @ file_path @ lit '':\<newline>''
     @ lit ''1) File summary\<newline>2) Key components\<newline>3) Actionable notes\<newline>\<newline>''
     @ lit ''Chunk summaries:\<newline>\<newline>''"
  by (simp add: combined_prompt_def)

text \<open>
  C3 (as amended). Called with an empty list of blocks, \<open>ollama_summarize_text_blocks\<close>
  makes no per-chunk request and still runs the combine phase: it makes exactly one
  request, the combine prompt built from no chunk summary, and returns the reply to it.
\<close>

theorem no_blocks_still_combines:
  "ollama_summarize_text_blocks backend [] file_path model reqs
     = (reply (backend reqs (combined_prompt file_path [], model)),
        reqs @ [(combined_prompt file_path [], model)])
   \<and> combined_prompt file_path [] =
       lit ''Combine these chunk-level summaries for file '' @ file_path @ lit '':\<newline>''
       @ lit ''1) File summary\<newline>2) Key components\<newline>3) Actionable notes\<newline>\<newline>''
       @ lit ''Chunk summaries:\<newline>\<newline>''"
  by (simp add: ollama_summarize_text_blocks_def ollama_generate_def combined_prompt_Nil)

text \<open>
  C3 as stated fails: with an empty list of blocks one request is made, and the result
  is the backend's answer, not a marker.
\<close>

theorem no_blocks_one_call:
  "ollama_summarize_text_blocks ok_backend [] (lit ''a.py'') (lit ''gemma:2b'') []
     = (lit ''ok'', [(combined_prompt (lit ''a.py'') [], lit ''gemma:2b'')])
   \<and> snd (ollama_summarize_text_blocks ok_backend [] (lit ''a.py'') (lit ''gemma:2b'') []) \<noteq> []
   \<and> fst (ollama_summarize_text_blocks ok_backend [] (lit ''a.py'') (lit ''gemma:2b'') []) \<noteq> EMPTY_MARKER"
  by (simp add: ollama_summarize_text_blocks_def ollama_generate_def ok_backend_def reply_def
      strip_def isspace_def lit_def EMPTY_MARKER_def)
section \<open>Properties of discovery\<close>

lemma scan_eq:
  "scan cur es queue files = (queue @ new_dirs cur es, files @ new_files cur es)"
  by (induction cur es queue files rule: scan.induct) (simp_all add: Let_def)

lemma excluded_not_code:
  "\<forall>n \<in> set EXCLUDE_DIRS. lower (snd (splitext n)) \<notin> set CODE_EXTENSIONS"
  by code_simp

lemma clean_iff:
  "clean root_dir p \<longleftrightarrow> (\<exists>segs. p = root_dir @ segs \<and> set segs \<inter> set EXCLUDE_DIRS = {})"
proof
  assume "clean root_dir p"
  then have "p = root_dir @ drop (length root_dir) p"
    and "set (drop (length root_dir) p) \<inter> set EXCLUDE_DIRS = {}"
    by (auto simp: clean_def) (metis append_take_drop_id)
  then show "\<exists>segs. p = root_dir @ segs \<and> set segs \<inter> set EXCLUDE_DIRS = {}" by blast
next
  assume "\<exists>segs. p = root_dir @ segs \<and> set segs \<inter> set EXCLUDE_DIRS = {}"
  then show "clean root_dir p" by (auto simp: clean_def)
qed

lemma clean_snoc:
  "clean root_dir p \<Longrightarrow> n \<notin> set EXCLUDE_DIRS \<Longrightarrow> clean root_dir (p @ [n])"
  by (auto simp: clean_iff)

lemma clean_snoc_neq: "clean root_dir p \<Longrightarrow> p @ [n] \<noteq> root_dir"
  by (auto simp: clean_iff)

lemma new_dirs_clean:
  "clean root_dir cur \<Longrightarrow> q \<in> set (new_dirs cur es) \<Longrightarrow> clean root_dir (fst q)"
  by (induction cur es rule: new_dirs.induct) (auto simp: clean_snoc split: if_splits)

lemma new_files_clean:
  "clean root_dir cur \<Longrightarrow> f \<in> set (new_files cur es)
     \<Longrightarrow> clean root_dir (fst f) \<and> fst f \<noteq> root_dir"
proof (induction cur es rule: new_files.induct)
  case (3 cur n fi rest)
  show ?case
  proof (cases "f = (cur @ [n], fi) \<and> lower (snd (splitext n)) \<in> set CODE_EXTENSIONS")
    case True
    then have "n \<notin> set EXCLUDE_DIRS" using excluded_not_code by blast
    then show ?thesis using True 3(3) by (simp add: clean_snoc clean_snoc_neq)
  next
    case False
    then have "f \<in> set (new_files cur rest)" using 3(4) by (auto split: if_splits)
    then show ?thesis using 3 by (auto split: if_splits)
  qed
qed simp_all

lemma bfs_clean:
  "bfs queue files scanned = Inr (files', scanned')
   \<Longrightarrow> \<forall>q \<in> set queue. clean root_dir (fst q)
   \<Longrightarrow> \<forall>f \<in> set files. clean root_dir (fst f) \<and> fst f \<noteq> root_dir
   \<Longrightarrow> \<forall>d \<in> set scanned. clean root_dir d
   \<Longrightarrow> (\<forall>f \<in> set files'. clean root_dir (fst f) \<and> fst f \<noteq> root_dir)
       \<and> (\<forall>d \<in> set scanned'. clean root_dir d)"
proof (induction queue files scanned rule: bfs.induct)
  case (1 files scanned)
  then show ?case by simp
next
  case (2 current_dir fi queue files scanned)
  then show ?case by simp
next
  case (3 current_dir es queue files scanned)
  then show ?case by simp
next
  case (4 current_dir es queue files scanned)
  have cur: "clean root_dir current_dir" using 4(3) by simp
  have s: "scan current_dir es queue files
      = (queue @ new_dirs current_dir es, files @ new_files current_dir es)"
    by (rule scan_eq)
  have run: "bfs (queue @ new_dirs current_dir es) (files @ new_files current_dir es)
      (scanned @ [current_dir]) = Inr (files', scanned')"
    using 4(2) by (simp add: s)
  show ?case
  proof (rule 4(1) [OF s [symmetric] run])
    show "\<forall>q \<in> set (queue @ new_dirs current_dir es). clean root_dir (fst q)"
      using 4(3) new_dirs_clean [OF cur] by auto
    show "\<forall>f \<in> set (files @ new_files current_dir es).
        clean root_dir (fst f) \<and> fst f \<noteq> root_dir"
      using 4(4) new_files_clean [OF cur] by auto
    show "\<forall>d \<in> set (scanned @ [current_dir]). clean root_dir d"
      using 4(5) cur by auto
  qed
qed

lemma sort_keys_zip:
  "sort_keys files = Inr ks \<Longrightarrow> length ks = length files \<and> map getsize files = map Inr ks"
  by (induction files arbitrary: ks) (auto split: sum.splits)

lemma sort_keys_pairs:
  "\<forall>p \<in> set ps. getsize (snd p) = Inr (fst p) \<Longrightarrow> sort_keys (map snd ps) = Inr (map fst ps)"
  by (induction ps) auto

lemma zip_keys:
  "map getsize files = map Inr ks \<Longrightarrow> \<forall>p \<in> set (zip ks files). getsize (snd p) = Inr (fst p)"
proof (induction files arbitrary: ks)
  case Nil
  then show ?case by simp
next
  case (Cons f files)
  then obtain k ks' where "ks = k # ks'" by (cases ks) auto
  with Cons show ?case by auto
qed

lemma sorted_result:
  assumes "sort_keys files = Inr ks"
  shows "sort_keys (map snd (sort_key fst (zip ks files)))
           = Inr (map fst (sort_key fst (zip ks files)))"
    and "sorted (map fst (sort_key fst (zip ks files)))"
    and "mset (map snd (sort_key fst (zip ks files))) = mset files"
proof -
  from sort_keys_zip [OF assms] have len: "length ks = length files"
    and keys: "map getsize files = map Inr ks" by simp_all
  have "\<forall>p \<in> set (sort_key fst (zip ks files)). getsize (snd p) = Inr (fst p)"
    using zip_keys [OF keys] by simp
  then show "sort_keys (map snd (sort_key fst (zip ks files)))
           = Inr (map fst (sort_key fst (zip ks files)))"
    by (rule sort_keys_pairs)
  show "sorted (map fst (sort_key fst (zip ks files)))"
    by (rule sorted_sort_key)
  have "mset (map snd (sort_key fst (zip ks files))) = mset (map snd (zip ks files))"
    by (simp del: map_snd_zip)
  also have "\<dots> = mset files" using len by simp
  finally show "mset (map snd (sort_key fst (zip ks files))) = mset files" .
qed

lemma find_code_files_bfs_Inr:
  assumes "find_code_files_bfs root_dir fs = Inr files"
  obtains trav sc ks where "bfs [(root_dir, fs)] [] [] = Inr (trav, sc)"
    and "sort_keys trav = Inr ks"
    and "files = map snd (sort_key fst (zip ks trav))"
  using assms by (auto simp: find_code_files_bfs_def split: sum.splits prod.splits)

lemma new_dirs_sound:
  "q \<in> set (new_dirs cur es) \<Longrightarrow> is_dir (snd q) \<and> (\<exists>n. (n, snd q) \<in> set es)"
  by (induction cur es rule: new_dirs.induct) (auto split: if_splits)

lemma new_files_sound:
  "f \<in> set (new_files cur es) \<Longrightarrow> \<exists>n. (n, File (snd f)) \<in> set es"
  by (induction cur es rule: new_files.induct) (auto split: if_splits)

lemma bfs_returns:
  "\<forall>q \<in> set queue. is_dir (snd q) \<and> all_sized (snd q)
   \<Longrightarrow> \<forall>f \<in> set files. st_size (snd f) \<noteq> None
   \<Longrightarrow> \<exists>files' scanned'. bfs queue files scanned = Inr (files', scanned')
         \<and> (\<forall>f \<in> set files'. st_size (snd f) \<noteq> None)"
proof (induction queue files scanned rule: bfs.induct)
  case (1 files scanned)
  then show ?case by simp
next
  case (2 current_dir fi queue files scanned)
  then show ?case by simp
next
  case (3 current_dir es queue files scanned)
  then show ?case by simp
next
  case (4 current_dir es queue files scanned)
  have s: "scan current_dir es queue files
      = (queue @ new_dirs current_dir es, files @ new_files current_dir es)"
    by (rule scan_eq)
  have es: "\<forall>e \<in> set es. all_sized (snd e)" using 4(2) by simp
  have "\<exists>files' scanned'.
      bfs (queue @ new_dirs current_dir es) (files @ new_files current_dir es)
        (scanned @ [current_dir]) = Inr (files', scanned')
      \<and> (\<forall>f \<in> set files'. st_size (snd f) \<noteq> None)"
  proof (rule 4(1) [OF s [symmetric]])
    show "\<forall>q \<in> set (queue @ new_dirs current_dir es). is_dir (snd q) \<and> all_sized (snd q)"
      using 4(2) es new_dirs_sound [of _ current_dir es] by fastforce
    show "\<forall>f \<in> set (files @ new_files current_dir es). st_size (snd f) \<noteq> None"
      using 4(3) es new_files_sound [of _ current_dir es] by fastforce
  qed
  then show ?case by (simp add: s)
qed

lemma sort_keys_returns:
  "\<forall>f \<in> set files. st_size (snd f) \<noteq> None \<Longrightarrow> \<exists>ks. sort_keys files = Inr ks"
  by (induction files) (auto simp: getsize_def)

lemma find_code_files_bfs_returns:
  assumes "is_dir fs" "all_sized fs"
  shows "\<exists>files. find_code_files_bfs root_dir fs = Inr files"
proof -
  from bfs_returns [of "[(root_dir, fs)]" "[]" "[]"] assms
  obtain trav sc where b: "bfs [(root_dir, fs)] [] [] = Inr (trav, sc)"
    and "\<forall>f \<in> set trav. st_size (snd f) \<noteq> None" by auto
  then obtain ks where "sort_keys trav = Inr ks" using sort_keys_returns by blast
  with b show ?thesis by (simp add: find_code_files_bfs_def)
qed

text \<open>
  C8. The list that \<open>find_code_files_bfs\<close> returns is sorted by non-decreasing file
  size: the sizes \<open>os.path.getsize\<close> reads from its files, in order, are a sorted
  list. It holds the files of the traversal, rearranged. The function returns whenever
  the root is a directory and the size of every file can be read.
\<close>

theorem find_code_files_bfs_sorted:
  "(find_code_files_bfs root_dir fs = Inr files \<longrightarrow>
      (\<exists>ks. map getsize files = map Inr ks \<and> sorted ks)
      \<and> (\<exists>trav sc. bfs [(root_dir, fs)] [] [] = Inr (trav, sc) \<and> mset files = mset trav))
   \<and> (is_dir fs \<and> all_sized fs \<longrightarrow> (\<exists>files'. find_code_files_bfs root_dir fs = Inr files'))"
proof (intro conjI impI)
  assume a: "find_code_files_bfs root_dir fs = Inr files"
  then obtain trav sc ks where b: "bfs [(root_dir, fs)] [] [] = Inr (trav, sc)"
    and k: "sort_keys trav = Inr ks"
    and f: "files = map snd (sort_key fst (zip ks trav))"
    by (rule find_code_files_bfs_Inr)
  have "sort_keys files = Inr (map fst (sort_key fst (zip ks trav)))"
    unfolding f using k by (rule sorted_result(1))
  then have "map getsize files = map Inr (map fst (sort_key fst (zip ks trav)))"
    by (simp add: sort_keys_zip)
  moreover have "sorted (map fst (sort_key fst (zip ks trav)))"
    using k by (rule sorted_result(2))
  ultimately show "\<exists>ks. map getsize files = map Inr ks \<and> sorted ks" by blast
  have "mset files = mset trav" unfolding f using k by (rule sorted_result(3))
  with b show "\<exists>trav sc. bfs [(root_dir, fs)] [] [] = Inr (trav, sc) \<and> mset files = mset trav"
    by blast
next
  assume "is_dir fs \<and> all_sized fs"
  then show "\<exists>files'. find_code_files_bfs root_dir fs = Inr files'"
    using find_code_files_bfs_returns by blast
qed

lemma all_paths_prefix: "q \<in> set (all_paths p n) \<Longrightarrow> take (length p) q = p"
proof (induction p n arbitrary: q rule: all_paths.induct)
  case (1 p fi)
  then show ?case by simp
next
  case (2 p r es)
  then obtain e where e: "e \<in> set es" and q: "q \<in> set (all_paths (p @ [fst e]) (snd e))"
    by auto
  from 2(1) [OF e q] have "take (length p + 1) q = p @ [fst e]" by simp
  then have "take (length p) (take (length p + 1) q) = take (length p) (p @ [fst e])" by simp
  then show ?case by (simp add: min_def)
qed

lemma all_paths_child:
  assumes "q \<in> set (all_paths (p @ [k]) n)"
  shows "q ! length p = k"
proof -
  from all_paths_prefix [OF assms] have t: "take (Suc (length p)) q = p @ [k]" by simp
  then have "length p < length q"
    by (metis length_append_singleton length_take lessI min_less_iff_conj)
  then have "take (Suc (length p)) q ! length p = q ! length p" by simp
  then show ?thesis by (simp add: t)
qed

lemma distinct_concat_tagged:
  "distinct (map k es) \<Longrightarrow> \<forall>e \<in> set es. distinct (g e)
   \<Longrightarrow> \<forall>e \<in> set es. \<forall>x \<in> set (g e). h x = k e
   \<Longrightarrow> distinct (concat (map g es))"
proof (induction es)
  case Nil
  then show ?case by simp
next
  case (Cons e es)
  have "set (g e) \<inter> (\<Union>e' \<in> set es. set (g e')) = {}"
  proof (rule ccontr)
    assume "set (g e) \<inter> (\<Union>e' \<in> set es. set (g e')) \<noteq> {}"
    then obtain x e' where "x \<in> set (g e)" "e' \<in> set es" "x \<in> set (g e')" by auto
    then have "k e = k e'" using Cons.prems(3) by (metis list.set_intros(1,2))
    then show False using Cons.prems(1) \<open>e' \<in> set es\<close> by auto
  qed
  then show ?case using Cons by auto
qed

lemma distinct_all_paths: "unique_names n \<Longrightarrow> distinct (all_paths p n)"
proof (induction p n rule: all_paths.induct)
  case (1 p fi)
  then show ?case by simp
next
  case (2 p r es)
  have "distinct (concat (map (\<lambda>e. all_paths (p @ [fst e]) (snd e)) es))"
  proof (rule distinct_concat_tagged [where k = fst and h = "\<lambda>q. q ! length p"])
    show "distinct (map fst es)" using 2(2) by simp
    show "\<forall>e \<in> set es. distinct (all_paths (p @ [fst e]) (snd e))"
      using 2 by simp
    show "\<forall>e \<in> set es. \<forall>x \<in> set (all_paths (p @ [fst e]) (snd e)). x ! length p = fst e"
      using all_paths_child by blast
  qed
  then show ?case by simp
qed

lemma scan_pending:
  "mset (map fst (new_files cur es))
     + mset (concat (map (\<lambda>q. all_paths (fst q) (snd q)) (new_dirs cur es)))
   \<subseteq># mset (all_paths cur (Dir r es))"
proof (induction es)
  case Nil
  then show ?case by simp
next
  case (Cons e es)
  obtain n x where e: "e = (n, x)" by (cases e)
  define A where "A = mset (map fst (new_files cur es))
     + mset (concat (map (\<lambda>q. all_paths (fst q) (snd q)) (new_dirs cur es)))"
  define B where "B = mset (all_paths cur (Dir r es))"
  have ih: "A \<subseteq># B" using Cons by (simp add: A_def B_def)
  show ?case
  proof (cases x)
    case (File fi)
    have goal: "mset (all_paths cur (Dir r (e # es))) = add_mset (cur @ [n]) B"
      using e File by (simp add: B_def)
    show ?thesis
    proof (cases "lower (snd (splitext n)) \<in> set CODE_EXTENSIONS")
      case True
      then have "mset (map fst (new_files cur (e # es)))
        + mset (concat (map (\<lambda>q. all_paths (fst q) (snd q)) (new_dirs cur (e # es))))
        = add_mset (cur @ [n]) A"
        using e File by (simp add: A_def)
      then show ?thesis using ih goal by simp
    next
      case False
      then have "mset (map fst (new_files cur (e # es)))
        + mset (concat (map (\<lambda>q. all_paths (fst q) (snd q)) (new_dirs cur (e # es))))
        = A"
        using e File by (simp add: A_def)
      then show ?thesis using ih goal
        by (metis mset_subset_eq_exists_conv union_mset_add_mset_right)
    qed
  next
    case (Dir r' ds)
    have goal: "mset (all_paths cur (Dir r (e # es))) = mset (all_paths (cur @ [n]) x) + B"
      using e Dir by (simp add: B_def)
    show ?thesis
    proof (cases "n \<in> set EXCLUDE_DIRS")
      case False
      then have "mset (map fst (new_files cur (e # es)))
        + mset (concat (map (\<lambda>q. all_paths (fst q) (snd q)) (new_dirs cur (e # es))))
        = mset (all_paths (cur @ [n]) x) + A"
        using e Dir by (simp add: A_def)
      then show ?thesis using ih goal by simp
    next
      case True
      then have "mset (map fst (new_files cur (e # es)))
        + mset (concat (map (\<lambda>q. all_paths (fst q) (snd q)) (new_dirs cur (e # es))))
        = A"
        using e Dir by (simp add: A_def)
      then show ?thesis using ih goal
        by (metis mset_subset_eq_add_right subset_mset.dual_order.trans)
    qed
  qed
qed


lemma bfs_pending:
  "bfs queue files scanned = Inr (files', scanned')
   \<Longrightarrow> mset (map fst files') \<subseteq># pending queue files"
proof (induction queue files scanned rule: bfs.induct)
  case (1 files scanned)
  then show ?case by (simp add: pending_def)
next
  case (2 current_dir fi queue files scanned)
  then show ?case by simp
next
  case (3 current_dir es queue files scanned)
  then have "mset (map fst files') \<subseteq># pending queue files" by simp
  also have "\<dots> \<subseteq># pending ((current_dir, Dir False es) # queue) files"
    by (simp add: pending_def)
  finally show ?case .
next
  case (4 current_dir es queue files scanned)
  have s: "scan current_dir es queue files
      = (queue @ new_dirs current_dir es, files @ new_files current_dir es)"
    by (rule scan_eq)
  have run: "bfs (queue @ new_dirs current_dir es) (files @ new_files current_dir es)
      (scanned @ [current_dir]) = Inr (files', scanned')"
    using 4(2) by (simp add: s)
  have "mset (map fst files')
      \<subseteq># pending (queue @ new_dirs current_dir es) (files @ new_files current_dir es)"
    by (rule 4(1) [OF s [symmetric] run])
  also have "\<dots> = pending queue files
      + (mset (map fst (new_files current_dir es))
         + mset (concat (map (\<lambda>q. all_paths (fst q) (snd q)) (new_dirs current_dir es))))"
    by (simp add: pending_def)
  also have "\<dots> \<subseteq># pending queue files + mset (all_paths current_dir (Dir True es))"
    using scan_pending [of current_dir es True] by (rule subset_mset.add_left_mono)
  also have "\<dots> = pending ((current_dir, Dir True es) # queue) files"
    by (simp add: pending_def)
  finally show ?case .
qed

lemma distinct_submset:
  assumes "mset xs \<subseteq># mset ys" "distinct ys"
  shows "distinct xs"
proof -
  have "count (mset xs) a \<le> 1" for a
  proof -
    have "count (mset xs) a \<le> count (mset ys) a"
      using assms(1) by (rule mset_subset_eq_count)
    also have "\<dots> \<le> 1" using assms(2) by (simp add: distinct_count_atmost_1)
    finally show ?thesis .
  qed
  then show ?thesis unfolding distinct_count_atmost_1
    by (metis count_mset_0_iff le_antisym less_one not_le_imp_less)
qed

lemma distinct_discovered:
  assumes "find_code_files_bfs root_dir fs = Inr files" "unique_names fs"
  shows "distinct (map fst files)"
proof -
  from assms(1) obtain trav sc ks where b: "bfs [(root_dir, fs)] [] [] = Inr (trav, sc)"
    and k: "sort_keys trav = Inr ks"
    and f: "files = map snd (sort_key fst (zip ks trav))"
    by (rule find_code_files_bfs_Inr)
  have "mset (map fst trav) \<subseteq># mset (all_paths root_dir fs)"
    using bfs_pending [OF b] by (simp add: pending_def)
  then have "distinct (map fst trav)"
    using distinct_all_paths [OF assms(2)] by (rule distinct_submset)
  moreover have "mset (map fst files) = mset (map fst trav)"
  proof -
    have "mset files = mset trav" unfolding f using k by (rule sorted_result(3))
    then have "image_mset fst (mset files) = image_mset fst (mset trav)" by simp
    then show ?thesis by simp
  qed
  ultimately show ?thesis by (metis mset_eq_imp_distinct_iff)
qed

lemma commonprefix_append: "commonprefix start (start @ segs) = start"
  by (induction start) simp_all

lemma relpath_below: "segs \<noteq> [] \<Longrightarrow> relpath (start @ segs) start = segs"
  by (simp add: relpath_def commonprefix_append)

lemma clean_relpath:
  assumes "clean root_dir p" "p \<noteq> root_dir"
  shows "root_dir @ relpath p root_dir = p"
    and "set (relpath p root_dir) \<inter> set EXCLUDE_DIRS = {}"
proof -
  from assms obtain segs where p: "p = root_dir @ segs" "set segs \<inter> set EXCLUDE_DIRS = {}"
    and "segs \<noteq> []"
    by (auto simp: clean_iff)
  then show "root_dir @ relpath p root_dir = p"
    and "set (relpath p root_dir) \<inter> set EXCLUDE_DIRS = {}"
    by (simp_all add: relpath_below)
qed

lemma discovered_clean:
  assumes "find_code_files_bfs root_dir fs = Inr files" "f \<in> set files"
  shows "clean root_dir (fst f) \<and> fst f \<noteq> root_dir"
proof -
  from assms(1) obtain trav sc ks where b: "bfs [(root_dir, fs)] [] [] = Inr (trav, sc)"
    and k: "sort_keys trav = Inr ks"
    and f: "files = map snd (sort_key fst (zip ks trav))"
    by (rule find_code_files_bfs_Inr)
  have "set files = set trav"
    using sorted_result(3) [OF k] f by (metis set_mset_mset)
  moreover have "\<forall>f \<in> set trav. clean root_dir (fst f) \<and> fst f \<noteq> root_dir"
    using bfs_clean [OF b, of root_dir] by (simp add: clean_def)
  ultimately show ?thesis using assms(2) by blast
qed

lemma distinct_relpaths:
  assumes "find_code_files_bfs root_dir fs = Inr files" "unique_names fs"
  shows "distinct (map (\<lambda>f. relpath (fst f) root_dir) files)"
proof -
  have "inj_on (\<lambda>p. relpath p root_dir) (set (map fst files))"
  proof (rule inj_onI)
    fix p q
    assume "p \<in> set (map fst files)" "q \<in> set (map fst files)"
      and eq: "relpath p root_dir = relpath q root_dir"
    then obtain f g where "f \<in> set files" "p = fst f" "g \<in> set files" "q = fst g"
      by auto
    then have "clean root_dir p \<and> p \<noteq> root_dir" "clean root_dir q \<and> q \<noteq> root_dir"
      using discovered_clean [OF assms(1)] by simp_all
    then have "root_dir @ relpath p root_dir = p" "root_dir @ relpath q root_dir = q"
      using clean_relpath(1) by simp_all
    with eq show "p = q" by metis
  qed
  then have "distinct (map (\<lambda>p. relpath p root_dir) (map fst files))"
    using distinct_discovered [OF assms] by (subst distinct_map) simp
  then show ?thesis by (simp add: comp_def)
qed

text \<open>
  C2 (as amended). Every path that \<open>find_code_files_bfs\<close> returns extends the root by
  at least one segment, and none of the segments below the root is a name of
  \<open>EXCLUDE_DIRS\<close>. The same holds of every directory passed to \<open>os.scandir\<close>: no
  directory at or below an excluded name is ever visited. The segments of the root itself
  are not looked at.
\<close>

theorem discovery_excludes:
  "(find_code_files_bfs root_dir fs = Inr files \<longrightarrow>
      (\<forall>f \<in> set files. \<exists>segs. fst f = root_dir @ segs \<and> segs \<noteq> []
          \<and> set segs \<inter> set EXCLUDE_DIRS = {}))
   \<and> (scanned_dirs root_dir fs = Inr dirs \<longrightarrow>
      (\<forall>d \<in> set dirs. \<exists>segs. d = root_dir @ segs \<and> set segs \<inter> set EXCLUDE_DIRS = {}))"
proof (intro conjI impI ballI)
  fix f
  assume "find_code_files_bfs root_dir fs = Inr files" "f \<in> set files"
  then have "clean root_dir (fst f)" "fst f \<noteq> root_dir"
    using discovered_clean by blast+
  then show "\<exists>segs. fst f = root_dir @ segs \<and> segs \<noteq> [] \<and> set segs \<inter> set EXCLUDE_DIRS = {}"
    by (auto simp: clean_iff)
next
  fix d
  assume "scanned_dirs root_dir fs = Inr dirs" "d \<in> set dirs"
  then obtain trav where b: "bfs [(root_dir, fs)] [] [] = Inr (trav, dirs)"
    by (auto simp: scanned_dirs_def split: sum.splits prod.splits)
  have "\<forall>d \<in> set dirs. clean root_dir d"
    using bfs_clean [OF b, of root_dir] by (simp add: clean_def)
  then show "\<exists>segs. d = root_dir @ segs \<and> set segs \<inter> set EXCLUDE_DIRS = {}"
    using \<open>d \<in> set dirs\<close> by (simp add: clean_iff)
qed

section \<open>Properties of the run\<close>

lemma strip_Nil: "strip [] = []"
  by (simp add: strip_def)

lemma strip_spaces: "\<forall>c \<in> set s. isspace c \<Longrightarrow> strip s = []"
proof -
  assume "\<forall>c \<in> set s. isspace c"
  then have d: "dropWhile isspace s = []" by simp
  show ?thesis unfolding strip_def d by simp
qed

lemma chunk_text_default:
  "strip content \<noteq> [] \<Longrightarrow>
     chunk_text content CHUNK_CHAR_SIZE = Inr (chunks_from 0 (nat CHUNK_CHAR_SIZE) content)"
  by (auto simp: chunk_text_def CHUNK_CHAR_SIZE_def strip_Nil)

lemma summarize_chunks_eq:
  "\<exists>texts. summarize_chunks backend blocks file_path model acc reqs
      = (acc @ texts, reqs @ map (\<lambda>c. (chunk_prompt file_path c, model)) blocks)
    \<and> length texts = length blocks
    \<and> (\<forall>t \<in> set texts. \<exists>rs r. t = reply (backend rs r))"
proof (induction blocks arbitrary: acc reqs)
  case Nil
  then show ?case by simp
next
  case (Cons c blocks)
  define t where "t = reply (backend reqs (chunk_prompt file_path c, model))"
  from Cons [of "acc @ [t]" "reqs @ [(chunk_prompt file_path c, model)]"]
  obtain texts where
    "summarize_chunks backend blocks file_path model (acc @ [t])
        (reqs @ [(chunk_prompt file_path c, model)])
      = ((acc @ [t]) @ texts,
         (reqs @ [(chunk_prompt file_path c, model)])
           @ map (\<lambda>c. (chunk_prompt file_path c, model)) blocks)"
    and "length texts = length blocks"
    and "\<forall>t \<in> set texts. \<exists>rs r. t = reply (backend rs r)"
    by blast
  then have "summarize_chunks backend (c # blocks) file_path model acc reqs
      = (acc @ (t # texts), reqs @ map (\<lambda>c. (chunk_prompt file_path c, model)) (c # blocks))
    \<and> length (t # texts) = length (c # blocks)
    \<and> (\<forall>t' \<in> set (t # texts). \<exists>rs r. t' = reply (backend rs r))"
    by (auto simp: ollama_generate_def t_def)
  then show ?case by blast
qed

lemma ollama_summarize_text_blocks_eq:
  "\<exists>texts rs. ollama_summarize_text_blocks backend blocks file_path model reqs
      = (reply (backend rs (combined_prompt file_path texts, model)),
         reqs @ map (\<lambda>c. (chunk_prompt file_path c, model)) blocks
           @ [(combined_prompt file_path texts, model)])
    \<and> length texts = length blocks
    \<and> (\<forall>t \<in> set texts. \<exists>rs r. t = reply (backend rs r))"
proof -
  from summarize_chunks_eq [of backend blocks file_path model "[]" reqs]
  obtain texts where
    "summarize_chunks backend blocks file_path model [] reqs
      = (texts, reqs @ map (\<lambda>c. (chunk_prompt file_path c, model)) blocks)"
    and "length texts = length blocks"
    and "\<forall>t \<in> set texts. \<exists>rs r. t = reply (backend rs r)"
    by auto
  then show ?thesis
    by (auto simp: ollama_summarize_text_blocks_def ollama_generate_def)
qed

lemma summarize_files_Cons:
  "summarize_files backend model repo_root (f # code_files) acc reqs =
     (if strip (read_file f) = []
      then summarize_files backend model repo_root code_files
             (AList.update (relpath (fst f) repo_root) EMPTY_MARKER acc) reqs
      else
        (case ollama_summarize_text_blocks backend
                (chunks_from 0 (nat CHUNK_CHAR_SIZE) (read_file f))
                (path_str (relpath (fst f) repo_root)) model reqs of
           (summ, reqs') \<Rightarrow>
             summarize_files backend model repo_root code_files
               (AList.update (relpath (fst f) repo_root) summ acc) reqs'))"
  by (simp add: Let_def chunk_text_default)

declare summarize_files.simps(2) [simp del]

lemma summarize_files_step:
  "\<exists>v reqs1.
     summarize_files backend model repo_root (f # code_files) d reqs
       = summarize_files backend model repo_root code_files
           (AList.update (relpath (fst f) repo_root) v d) reqs1
     \<and> (strip (read_file f) = [] \<longrightarrow> v = EMPTY_MARKER \<and> reqs1 = reqs)
     \<and> (strip (read_file f) \<noteq> [] \<longrightarrow>
           (v, reqs1) = ollama_summarize_text_blocks backend
              (chunks_from 0 (nat CHUNK_CHAR_SIZE) (read_file f))
              (path_str (relpath (fst f) repo_root)) model reqs)"
proof (cases "strip (read_file f) = []")
  case True
  then show ?thesis by (simp add: summarize_files_Cons)
next
  case False
  obtain v reqs1 where "ollama_summarize_text_blocks backend
              (chunks_from 0 (nat CHUNK_CHAR_SIZE) (read_file f))
              (path_str (relpath (fst f) repo_root)) model reqs = (v, reqs1)"
    by (cases "ollama_summarize_text_blocks backend
              (chunks_from 0 (nat CHUNK_CHAR_SIZE) (read_file f))
              (path_str (relpath (fst f) repo_root)) model reqs")
  then show ?thesis using False by (simp add: summarize_files_Cons)
qed

lemma summarize_files_returns:
  "\<exists>d' reqs'. summarize_files backend model repo_root code_files d reqs = Inr (d', reqs')"
proof (induction code_files arbitrary: d reqs)
  case Nil
  then show ?case by simp
next
  case (Cons f code_files)
  obtain v reqs1 where "summarize_files backend model repo_root (f # code_files) d reqs
       = summarize_files backend model repo_root code_files
           (AList.update (relpath (fst f) repo_root) v d) reqs1"
    using summarize_files_step [of backend model repo_root f code_files d reqs] by blast
  then show ?case using Cons by simp
qed

lemma summarize_files_persist:
  "summarize_files backend model repo_root code_files d reqs = Inr (d', reqs')
   \<Longrightarrow> k \<notin> set (map (\<lambda>f. relpath (fst f) repo_root) code_files)
   \<Longrightarrow> map_of d' k = map_of d k"
proof (induction code_files arbitrary: d reqs)
  case Nil
  then show ?case by simp
next
  case (Cons f code_files)
  obtain v reqs1 where "summarize_files backend model repo_root (f # code_files) d reqs
       = summarize_files backend model repo_root code_files
           (AList.update (relpath (fst f) repo_root) v d) reqs1"
    using summarize_files_step [of backend model repo_root f code_files d reqs] by blast
  with Cons.prems have "summarize_files backend model repo_root code_files
           (AList.update (relpath (fst f) repo_root) v d) reqs1 = Inr (d', reqs')"
    by simp
  then have "map_of d' k = map_of (AList.update (relpath (fst f) repo_root) v d) k"
    using Cons.prems(2) by (intro Cons.IH) auto
  then show ?case using Cons.prems(2) by (simp add: update_conv')
qed

lemma summarize_files_keys:
  "summarize_files backend model repo_root code_files d reqs = Inr (d', reqs')
   \<Longrightarrow> distinct (map fst d @ map (\<lambda>f. relpath (fst f) repo_root) code_files)
   \<Longrightarrow> map fst d' = map fst d @ map (\<lambda>f. relpath (fst f) repo_root) code_files"
proof (induction code_files arbitrary: d reqs)
  case Nil
  then show ?case by simp
next
  case (Cons f code_files)
  obtain v reqs1 where "summarize_files backend model repo_root (f # code_files) d reqs
       = summarize_files backend model repo_root code_files
           (AList.update (relpath (fst f) repo_root) v d) reqs1"
    using summarize_files_step [of backend model repo_root f code_files d reqs] by blast
  with Cons.prems have run: "summarize_files backend model repo_root code_files
           (AList.update (relpath (fst f) repo_root) v d) reqs1 = Inr (d', reqs')"
    by simp
  have keys: "map fst (AList.update (relpath (fst f) repo_root) v d)
      = map fst d @ [relpath (fst f) repo_root]"
    using Cons.prems(2) by (simp add: update_keys)
  have "map fst d' = map fst (AList.update (relpath (fst f) repo_root) v d)
      @ map (\<lambda>f. relpath (fst f) repo_root) code_files"
    using Cons.prems(2) by (intro Cons.IH [OF run]) (auto simp: keys)
  then show ?case by (simp add: keys)
qed

lemma summarize_files_value:
  "summarize_files backend model repo_root code_files d reqs = Inr (d', reqs')
   \<Longrightarrow> distinct (map (\<lambda>f. relpath (fst f) repo_root) code_files)
   \<Longrightarrow> f \<in> set code_files
   \<Longrightarrow> \<exists>v. map_of d' (relpath (fst f) repo_root) = Some v
         \<and> (if strip (read_file f) = [] then v = EMPTY_MARKER
            else \<exists>rs r. v = reply (backend rs r))"
proof (induction code_files arbitrary: d reqs)
  case Nil
  then show ?case by simp
next
  case (Cons g code_files)
  obtain v reqs1 where step: "summarize_files backend model repo_root (g # code_files) d reqs
       = summarize_files backend model repo_root code_files
           (AList.update (relpath (fst g) repo_root) v d) reqs1"
    and blank: "strip (read_file g) = [] \<Longrightarrow> v = EMPTY_MARKER \<and> reqs1 = reqs"
    and full: "strip (read_file g) \<noteq> [] \<Longrightarrow>
           (v, reqs1) = ollama_summarize_text_blocks backend
              (chunks_from 0 (nat CHUNK_CHAR_SIZE) (read_file g))
              (path_str (relpath (fst g) repo_root)) model reqs"
    using summarize_files_step [of backend model repo_root g code_files d reqs] by blast
  from step Cons.prems have run: "summarize_files backend model repo_root code_files
           (AList.update (relpath (fst g) repo_root) v d) reqs1 = Inr (d', reqs')"
    by simp
  show ?case
  proof (cases "f \<in> set code_files")
    case True
    then show ?thesis using Cons.IH [OF run] Cons.prems(2) by simp
  next
    case False
    then have fg: "f = g" using Cons.prems(3) by simp
    have "relpath (fst g) repo_root \<notin> set (map (\<lambda>f. relpath (fst f) repo_root) code_files)"
      using Cons.prems(2) by simp
    then have "map_of d' (relpath (fst g) repo_root)
        = map_of (AList.update (relpath (fst g) repo_root) v d) (relpath (fst g) repo_root)"
      by (rule summarize_files_persist [OF run])
    then have v: "map_of d' (relpath (fst g) repo_root) = Some v"
      by (simp add: update_conv')
    show ?thesis
    proof (cases "strip (read_file g) = []")
      case True
      then show ?thesis using v blank fg by simp
    next
      case False
      from ollama_summarize_text_blocks_eq [of backend
          "chunks_from 0 (nat CHUNK_CHAR_SIZE) (read_file g)"
          "path_str (relpath (fst g) repo_root)" model reqs]
      obtain rs r where "fst (ollama_summarize_text_blocks backend
              (chunks_from 0 (nat CHUNK_CHAR_SIZE) (read_file g))
              (path_str (relpath (fst g) repo_root)) model reqs) = reply (backend rs r)"
        by force
      then have "v = reply (backend rs r)" using full [OF False] by (metis fst_conv)
      then have ex: "\<exists>rs r. v = reply (backend rs r)" by blast
      show ?thesis unfolding fg using v False ex by (intro exI [of _ v]) simp
    qed
  qed
qed

lemma summarize_files_requests:
  "summarize_files backend model repo_root code_files d reqs = Inr (d', reqs')
   \<Longrightarrow> length reqs' = length reqs + sum_list (map calls_for code_files)"
proof (induction code_files arbitrary: d reqs)
  case Nil
  then show ?case by simp
next
  case (Cons g code_files)
  obtain v reqs1 where step: "summarize_files backend model repo_root (g # code_files) d reqs
       = summarize_files backend model repo_root code_files
           (AList.update (relpath (fst g) repo_root) v d) reqs1"
    and blank: "strip (read_file g) = [] \<Longrightarrow> v = EMPTY_MARKER \<and> reqs1 = reqs"
    and full: "strip (read_file g) \<noteq> [] \<Longrightarrow>
           (v, reqs1) = ollama_summarize_text_blocks backend
              (chunks_from 0 (nat CHUNK_CHAR_SIZE) (read_file g))
              (path_str (relpath (fst g) repo_root)) model reqs"
    using summarize_files_step [of backend model repo_root g code_files d reqs] by blast
  from step Cons.prems have run: "summarize_files backend model repo_root code_files
           (AList.update (relpath (fst g) repo_root) v d) reqs1 = Inr (d', reqs')"
    by simp
  have "length reqs1 = length reqs + calls_for g"
  proof (cases "strip (read_file g) = []")
    case True
    then show ?thesis using blank by (simp add: calls_for_def)
  next
    case False
    from ollama_summarize_text_blocks_eq [of backend
          "chunks_from 0 (nat CHUNK_CHAR_SIZE) (read_file g)"
          "path_str (relpath (fst g) repo_root)" model reqs]
    have "length (snd (ollama_summarize_text_blocks backend
              (chunks_from 0 (nat CHUNK_CHAR_SIZE) (read_file g))
              (path_str (relpath (fst g) repo_root)) model reqs))
        = length reqs + length (chunks_from 0 (nat CHUNK_CHAR_SIZE) (read_file g)) + 1"
      by force
    then show ?thesis using full [OF False] False
      by (metis add.assoc calls_for_def snd_conv)
  qed
  then show ?case using Cons.IH [OF run] by simp
qed

lemma summarize_files_skip:
  "\<forall>f \<in> set code_files. \<not> keep f \<longrightarrow> strip (read_file f) = []
   \<Longrightarrow> map_sum id snd (summarize_files backend model repo_root code_files d1 reqs)
       = map_sum id snd (summarize_files backend model repo_root (filter keep code_files) d2 reqs)"
proof (induction code_files arbitrary: d1 d2 reqs)
  case Nil
  then show ?case by simp
next
  case (Cons g code_files)
  obtain v reqs1 where step: "summarize_files backend model repo_root (g # code_files) d1 reqs
       = summarize_files backend model repo_root code_files
           (AList.update (relpath (fst g) repo_root) v d1) reqs1"
    and blank: "strip (read_file g) = [] \<Longrightarrow> v = EMPTY_MARKER \<and> reqs1 = reqs"
    and full: "strip (read_file g) \<noteq> [] \<Longrightarrow>
           (v, reqs1) = ollama_summarize_text_blocks backend
              (chunks_from 0 (nat CHUNK_CHAR_SIZE) (read_file g))
              (path_str (relpath (fst g) repo_root)) model reqs"
    using summarize_files_step [of backend model repo_root g code_files d1 reqs] by blast
  have rest: "\<forall>f \<in> set code_files. \<not> keep f \<longrightarrow> strip (read_file f) = []"
    using Cons.prems by simp
  show ?case
  proof (cases "keep g")
    case False
    then have "strip (read_file g) = []" using Cons.prems by simp
    then have "reqs1 = reqs" using blank by simp
    then show ?thesis using step False Cons.IH [OF rest] by simp
  next
    case True
    obtain v' reqs1' where step': "summarize_files backend model repo_root
          (g # filter keep code_files) d2 reqs
       = summarize_files backend model repo_root (filter keep code_files)
           (AList.update (relpath (fst g) repo_root) v' d2) reqs1'"
      and blank': "strip (read_file g) = [] \<Longrightarrow> v' = EMPTY_MARKER \<and> reqs1' = reqs"
      and full': "strip (read_file g) \<noteq> [] \<Longrightarrow>
           (v', reqs1') = ollama_summarize_text_blocks backend
              (chunks_from 0 (nat CHUNK_CHAR_SIZE) (read_file g))
              (path_str (relpath (fst g) repo_root)) model reqs"
      using summarize_files_step [of backend model repo_root g "filter keep code_files" d2 reqs] by blast
    have "reqs1' = reqs1"
      using blank blank' full full' by (cases "strip (read_file g) = []") (auto dest: sym)
    then show ?thesis using step step' True Cons.IH [OF rest] by simp
  qed
qed

lemma main_Summaries:
  assumes "main backend model repo_root fs = Inr (Summaries d, reqs)"
  obtains code_files where "find_code_files_bfs repo_root fs = Inr code_files"
    and "code_files \<noteq> []"
    and "summarize_files backend model repo_root code_files [] [] = Inr (d, reqs)"
  using assms by (auto simp: main_def split: sum.splits if_splits prod.splits)

lemma main_returns:
  assumes "find_code_files_bfs repo_root fs = Inr code_files" "code_files \<noteq> []"
  obtains d reqs where "main backend model repo_root fs = Inr (Summaries d, reqs)"
    and "summarize_files backend model repo_root code_files [] [] = Inr (d, reqs)"
proof -
  from summarize_files_returns [of backend model repo_root code_files "[]" "[]"]
  obtain d reqs where "summarize_files backend model repo_root code_files [] [] = Inr (d, reqs)"
    by blast
  then show ?thesis using assms that by (simp add: main_def)
qed

lemma run_keys:
  assumes "find_code_files_bfs repo_root fs = Inr code_files" "unique_names fs"
    and "summarize_files backend model repo_root code_files [] [] = Inr (d, reqs)"
  shows "map fst d = map (\<lambda>f. relpath (fst f) repo_root) code_files"
    and "distinct (map fst d)"
    and "map (\<lambda>k. repo_root @ k) (map fst d) = map fst code_files"
proof -
  have dist: "distinct (map (\<lambda>f. relpath (fst f) repo_root) code_files)"
    using assms(1,2) by (rule distinct_relpaths)
  show keys: "map fst d = map (\<lambda>f. relpath (fst f) repo_root) code_files"
    using summarize_files_keys [OF assms(3)] dist by simp
  show "distinct (map fst d)" using keys dist by simp
  have "\<forall>f \<in> set code_files. repo_root @ relpath (fst f) repo_root = fst f"
    using discovered_clean [OF assms(1)] clean_relpath(1) by blast
  then show "map (\<lambda>k. repo_root @ k) (map fst d) = map fst code_files"
    unfolding keys by (induction code_files) simp_all
qed

text \<open>
  C7. After a run of \<open>main\<close> that returns a summary map, on a tree with unique names:
  the keys of the map are the paths of the discovered files relative to the root, in the
  order in which \<open>find_code_files_bfs\<close> returned them, each exactly once.
\<close>

theorem summary_map_keys:
  assumes "main backend model repo_root fs = Inr (Summaries file_summaries, reqs)"
    and "unique_names fs"
  shows "\<exists>code_files. find_code_files_bfs repo_root fs = Inr code_files
           \<and> map fst file_summaries = map (\<lambda>f. relpath (fst f) repo_root) code_files
           \<and> distinct (map fst file_summaries)
           \<and> map (\<lambda>k. repo_root @ k) (map fst file_summaries) = map fst code_files"
proof -
  from assms(1) obtain code_files where f: "find_code_files_bfs repo_root fs = Inr code_files"
    and s: "summarize_files backend model repo_root code_files [] [] = Inr (file_summaries, reqs)"
    by (rule main_Summaries)
  show ?thesis using f run_keys [OF f assms(2) s] by blast
qed

lemma blank_entry:
  assumes "main backend model repo_root fs = Inr (Summaries file_summaries, reqs)"
    and "unique_names fs"
    and "find_code_files_bfs repo_root fs = Inr code_files"
    and "f \<in> set code_files"
    and "strip (read_file f) = []"
  shows "map_of file_summaries (relpath (fst f) repo_root) = Some EMPTY_MARKER"
    and "\<exists>d'. summarize_files backend model repo_root (removeAll f code_files) [] []
            = Inr (d', reqs)"
    and "summarize_files backend model repo_root (f # rest) d0 reqs0
           = summarize_files backend model repo_root rest
               (AList.update (relpath (fst f) repo_root) EMPTY_MARKER d0) reqs0"
proof -
  from assms(1) obtain files' where "find_code_files_bfs repo_root fs = Inr files'"
    and "summarize_files backend model repo_root files' [] [] = Inr (file_summaries, reqs)"
    by (rule main_Summaries)
  with assms(3) have s: "summarize_files backend model repo_root code_files [] []
      = Inr (file_summaries, reqs)" by simp
  have dist: "distinct (map (\<lambda>f. relpath (fst f) repo_root) code_files)"
    using assms(3,2) by (rule distinct_relpaths)
  from summarize_files_value [OF s dist assms(4)] assms(5)
  show "map_of file_summaries (relpath (fst f) repo_root) = Some EMPTY_MARKER" by auto
  have "map_sum id snd (summarize_files backend model repo_root code_files [] [])
      = map_sum id snd (summarize_files backend model repo_root
          (filter (\<lambda>g. g \<noteq> f) code_files) [] [])"
    using assms(5) by (intro summarize_files_skip) auto
  moreover obtain d' reqs' where "summarize_files backend model repo_root
          (filter (\<lambda>g. g \<noteq> f) code_files) [] [] = Inr (d', reqs')"
    using summarize_files_returns by blast
  moreover have "filter (\<lambda>g. g \<noteq> f) code_files = removeAll f code_files"
    by (induction code_files) auto
  ultimately show "\<exists>d'. summarize_files backend model repo_root (removeAll f code_files) [] []
            = Inr (d', reqs)"
    using s by simp
  show "summarize_files backend model repo_root (f # rest) d0 reqs0
           = summarize_files backend model repo_root rest
               (AList.update (relpath (fst f) repo_root) EMPTY_MARKER d0) reqs0"
    using assms(5) by (simp add: summarize_files_Cons)
qed

text \<open>
  C6. For a discovered file whose content is empty or cannot be read or decoded, the
  entry of the summary map is the marker \<open>[empty or binary file]\<close>, and no request is
  made for it: the run over the other files makes the same requests, and the loop passes
  the list of requests on unchanged at this file.
\<close>

theorem empty_file_marker:
  assumes "main backend model repo_root fs = Inr (Summaries file_summaries, reqs)"
    and "unique_names fs"
    and "find_code_files_bfs repo_root fs = Inr code_files"
    and "f \<in> set code_files"
    and "contents (snd f) = Some [] \<or> contents (snd f) = None"
  shows "map_of file_summaries (relpath (fst f) repo_root) = Some EMPTY_MARKER
    \<and> (\<exists>d'. summarize_files backend model repo_root (removeAll f code_files) [] []
            = Inr (d', reqs))
    \<and> (\<forall>rest d0 reqs0. summarize_files backend model repo_root (f # rest) d0 reqs0
           = summarize_files backend model repo_root rest
               (AList.update (relpath (fst f) repo_root) EMPTY_MARKER d0) reqs0)"
proof -
  have "read_file f = []" using assms(5) by (auto simp: read_file_def)
  then have "strip (read_file f) = []" by (simp add: strip_Nil)
  from blank_entry [OF assms(1-4) this] show ?thesis by blast
qed

text \<open>
  C10. The same holds for a discovered file whose content is not empty and consists of
  whitespace only: \<open>content.strip()\<close> is empty.
\<close>

theorem whitespace_file_marker:
  assumes "main backend model repo_root fs = Inr (Summaries file_summaries, reqs)"
    and "unique_names fs"
    and "find_code_files_bfs repo_root fs = Inr code_files"
    and "f \<in> set code_files"
    and "read_file f \<noteq> []" and "\<forall>c \<in> set (read_file f). isspace c"
  shows "map_of file_summaries (relpath (fst f) repo_root) = Some EMPTY_MARKER
    \<and> (\<exists>d'. summarize_files backend model repo_root (removeAll f code_files) [] []
            = Inr (d', reqs))
    \<and> (\<forall>rest d0 reqs0. summarize_files backend model repo_root (f # rest) d0 reqs0
           = summarize_files backend model repo_root rest
               (AList.update (relpath (fst f) repo_root) EMPTY_MARKER d0) reqs0)"
proof -
  have "strip (read_file f) = []" using assms(6) by (rule strip_spaces)
  from blank_entry [OF assms(1-4) this] show ?thesis by blast
qed

text \<open>
  C5. When every reply of the backend is the error marker, and discovery returned at
  least one file of a tree with unique names: \<open>main\<close> returns a summary map, with exactly
  one entry per discovered file, in the order of discovery; the entry of every file that
  is not blank is an error marker; and the requests made are, for every such file, one
  per chunk and one to combine. For every list of blocks, \<open>ollama_summarize_text_blocks\<close>
  makes the request of every chunk and then the combine request, over chunk summaries
  that are all error markers.
\<close>

theorem degraded_backend_run:
  assumes "\<forall>rs r. \<exists>e. reply (backend rs r) = error_text e"
    and "find_code_files_bfs repo_root fs = Inr code_files"
    and "code_files \<noteq> []"
    and "unique_names fs"
  shows "(\<exists>file_summaries reqs.
            main backend model repo_root fs = Inr (Summaries file_summaries, reqs)
            \<and> map fst file_summaries = map (\<lambda>f. relpath (fst f) repo_root) code_files
            \<and> distinct (map fst file_summaries)
            \<and> (\<forall>f \<in> set code_files. strip (read_file f) \<noteq> [] \<longrightarrow>
                  (\<exists>e. map_of file_summaries (relpath (fst f) repo_root) = Some (error_text e)))
            \<and> length reqs = sum_list (map (\<lambda>f. if strip (read_file f) = [] then 0
                  else length (chunks_from 0 (nat CHUNK_CHAR_SIZE) (read_file f)) + 1)
                code_files))
       \<and> (\<forall>blocks file_path reqs0. \<exists>e texts.
            ollama_summarize_text_blocks backend blocks file_path model reqs0
              = (error_text e,
                 reqs0 @ map (\<lambda>c. (chunk_prompt file_path c, model)) blocks
                   @ [(combined_prompt file_path texts, model)])
            \<and> length texts = length blocks
            \<and> (\<forall>t \<in> set texts. \<exists>e. t = error_text e))"
proof (intro conjI allI)
  from assms(2,3) obtain d reqs where m: "main backend model repo_root fs = Inr (Summaries d, reqs)"
    and s: "summarize_files backend model repo_root code_files [] [] = Inr (d, reqs)"
    by (rule main_returns)
  have dist: "distinct (map (\<lambda>f. relpath (fst f) repo_root) code_files)"
    using assms(2,4) by (rule distinct_relpaths)
  have vals: "\<forall>f \<in> set code_files. strip (read_file f) \<noteq> [] \<longrightarrow>
      (\<exists>e. map_of d (relpath (fst f) repo_root) = Some (error_text e))"
  proof (intro ballI impI)
    fix f
    assume f: "f \<in> set code_files" and nb: "strip (read_file f) \<noteq> []"
    from summarize_files_value [OF s dist f] nb
    obtain v rs r where "map_of d (relpath (fst f) repo_root) = Some v"
      and "v = reply (backend rs r)" by auto
    moreover obtain e where "reply (backend rs r) = error_text e" using assms(1) by blast
    ultimately have "map_of d (relpath (fst f) repo_root) = Some (error_text e)" by simp
    then show "\<exists>e. map_of d (relpath (fst f) repo_root) = Some (error_text e)" ..
  qed
  have "length reqs = sum_list (map calls_for code_files)"
    using summarize_files_requests [OF s] by simp
  then have len: "length reqs = sum_list (map (\<lambda>f. if strip (read_file f) = [] then 0
      else length (chunks_from 0 (nat CHUNK_CHAR_SIZE) (read_file f)) + 1) code_files)"
    by (simp add: calls_for_def [abs_def])
  show "\<exists>file_summaries reqs.
            main backend model repo_root fs = Inr (Summaries file_summaries, reqs)
            \<and> map fst file_summaries = map (\<lambda>f. relpath (fst f) repo_root) code_files
            \<and> distinct (map fst file_summaries)
            \<and> (\<forall>f \<in> set code_files. strip (read_file f) \<noteq> [] \<longrightarrow>
                  (\<exists>e. map_of file_summaries (relpath (fst f) repo_root) = Some (error_text e)))
            \<and> length reqs = sum_list (map (\<lambda>f. if strip (read_file f) = [] then 0
                  else length (chunks_from 0 (nat CHUNK_CHAR_SIZE) (read_file f)) + 1)
                code_files)"
    using m run_keys(1,2) [OF assms(2,4) s] vals len by blast
next
  fix blocks file_path reqs0
  from ollama_summarize_text_blocks_eq [of backend blocks file_path model reqs0]
  obtain texts rs where eq: "ollama_summarize_text_blocks backend blocks file_path model reqs0
      = (reply (backend rs (combined_prompt file_path texts, model)),
         reqs0 @ map (\<lambda>c. (chunk_prompt file_path c, model)) blocks
           @ [(combined_prompt file_path texts, model)])"
    and len: "length texts = length blocks"
    and each: "\<forall>t \<in> set texts. \<exists>rs r. t = reply (backend rs r)"
    by blast
  obtain e where "reply (backend rs (combined_prompt file_path texts, model)) = error_text e"
    using assms(1) by blast
  moreover have "\<forall>t \<in> set texts. \<exists>e. t = error_text e"
    using each assms(1) by metis
  ultimately show "\<exists>e texts.
            ollama_summarize_text_blocks backend blocks file_path model reqs0
              = (error_text e,
                 reqs0 @ map (\<lambda>c. (chunk_prompt file_path c, model)) blocks
                   @ [(combined_prompt file_path texts, model)])
            \<and> length texts = length blocks
            \<and> (\<forall>t \<in> set texts. \<exists>e. t = error_text e)"
    using eq len by auto
qed

section \<open>The example tree\<close>

lemma example_discovery:
  "find_code_files_bfs example_root example_tree = Inr example_files"
  by code_simp

lemma example_scanned:
  "scanned_dirs example_root example_tree
     = Inr [example_root, example_root @ [lit ''src''], example_root @ [lit ''locked'']]"
  by code_simp

lemma example_unique: "unique_names example_tree"
  by code_simp

lemma example_sized: "is_dir example_tree \<and> all_sized example_tree"
  by code_simp

lemma example_calls:
  "sum_list (map (\<lambda>f. if strip (read_file f) = [] then 0
       else length (chunks_from 0 (nat CHUNK_CHAR_SIZE) (read_file f)) + 1) example_files) = 4"
  by code_simp

section \<open>The claims on the example tree\<close>

lemma example_a_py:
  "(example_root @ [lit ''src'', lit ''a.py''], Fileinfo (Some 8) (Some (lit ''print(1)'')))
     \<in> set example_files"
  by (simp add: example_files_def)

lemma example_empty_ts:
  "(example_root @ [lit ''src'', lit ''empty.ts''], Fileinfo (Some 0) (Some []))
     \<in> set example_files"
  by (simp add: example_files_def)

lemma example_blank_js:
  "(example_root @ [lit ''src'', lit ''blank.js''], Fileinfo (Some 3) (Some (lit '' \<newline> '')))
     \<in> set example_files"
  by (simp add: example_files_def)

lemma example_nonempty: "example_files \<noteq> []"
  by (simp add: example_files_def)

theorem discovery_excludes_witness:
  "find_code_files_bfs example_root example_tree = Inr example_files
   \<and> scanned_dirs example_root example_tree
       = Inr [example_root, example_root @ [lit ''src''], example_root @ [lit ''locked'']]
   \<and> (\<exists>segs. example_root @ [lit ''src'', lit ''a.py''] = example_root @ segs \<and> segs \<noteq> []
         \<and> set segs \<inter> set EXCLUDE_DIRS = {})
   \<and> (\<exists>segs. example_root @ [lit ''src''] = example_root @ segs
         \<and> set segs \<inter> set EXCLUDE_DIRS = {})"
proof -
  note t = discovery_excludes [of example_root example_tree example_files
      "[example_root, example_root @ [lit ''src''], example_root @ [lit ''locked'']]"]
  from t example_discovery example_a_py
  have "\<exists>segs. example_root @ [lit ''src'', lit ''a.py''] = example_root @ segs \<and> segs \<noteq> []
         \<and> set segs \<inter> set EXCLUDE_DIRS = {}"
    by fastforce
  moreover from t example_scanned
  have "\<exists>segs. example_root @ [lit ''src''] = example_root @ segs
         \<and> set segs \<inter> set EXCLUDE_DIRS = {}"
    by fastforce
  ultimately show ?thesis using example_discovery example_scanned by blast
qed

text \<open>
  C2 as stated fails: the root \<open>/srv/build\<close> is itself named \<open>build\<close>, and every path
  returned from it holds that segment.
\<close>

theorem root_segment_not_checked:
  "find_code_files_bfs example_root example_tree = Inr example_files
   \<and> (example_root @ [lit ''src'', lit ''a.py''], Fileinfo (Some 8) (Some (lit ''print(1)'')))
       \<in> set example_files
   \<and> lit ''build'' \<in> set EXCLUDE_DIRS
   \<and> lit ''build'' \<in> set (example_root @ [lit ''src'', lit ''a.py''])"
  using example_discovery example_a_py by (simp add: EXCLUDE_DIRS_def example_root_def)

theorem find_code_files_bfs_sorted_witness:
  "find_code_files_bfs example_root example_tree = Inr example_files
   \<and> is_dir example_tree \<and> all_sized example_tree
   \<and> (\<exists>ks. map getsize example_files = map Inr ks \<and> sorted ks)"
  using find_code_files_bfs_sorted [of example_root example_tree example_files]
    example_discovery example_sized by blast

theorem summary_map_keys_witness:
  "unique_names example_tree
   \<and> (\<exists>d reqs. main ok_backend (lit ''gemma:2b'') example_root example_tree
          = Inr (Summaries d, reqs)
        \<and> map fst d = map (\<lambda>f. relpath (fst f) example_root) example_files)"
proof -
  from example_discovery example_nonempty
  obtain d reqs where m: "main ok_backend (lit ''gemma:2b'') example_root example_tree
      = Inr (Summaries d, reqs)"
    by (rule main_returns)
  from summary_map_keys [OF m example_unique] example_discovery
  have "map fst d = map (\<lambda>f. relpath (fst f) example_root) example_files" by auto
  with m example_unique show ?thesis by blast
qed

theorem empty_file_marker_witness:
  "unique_names example_tree
   \<and> find_code_files_bfs example_root example_tree = Inr example_files
   \<and> (\<exists>d reqs. main ok_backend (lit ''gemma:2b'') example_root example_tree
          = Inr (Summaries d, reqs)
        \<and> map_of d [lit ''src'', lit ''empty.ts''] = Some EMPTY_MARKER)"
proof -
  from example_discovery example_nonempty
  obtain d reqs where m: "main ok_backend (lit ''gemma:2b'') example_root example_tree
      = Inr (Summaries d, reqs)"
    by (rule main_returns)
  have "map_of d (relpath (fst (example_root @ [lit ''src'', lit ''empty.ts''],
      Fileinfo (Some 0) (Some []))) example_root) = Some EMPTY_MARKER"
    using empty_file_marker [OF m example_unique example_discovery example_empty_ts] by simp
  then have "map_of d [lit ''src'', lit ''empty.ts''] = Some EMPTY_MARKER"
    by (simp add: relpath_below)
  with m example_unique example_discovery show ?thesis by blast
qed

theorem whitespace_file_marker_witness:
  "unique_names example_tree
   \<and> find_code_files_bfs example_root example_tree = Inr example_files
   \<and> (\<exists>d reqs. main ok_backend (lit ''gemma:2b'') example_root example_tree
          = Inr (Summaries d, reqs)
        \<and> map_of d [lit ''src'', lit ''blank.js''] = Some EMPTY_MARKER)"
proof -
  from example_discovery example_nonempty
  obtain d reqs where m: "main ok_backend (lit ''gemma:2b'') example_root example_tree
      = Inr (Summaries d, reqs)"
    by (rule main_returns)
  have ne: "read_file (example_root @ [lit ''src'', lit ''blank.js''],
      Fileinfo (Some 3) (Some (lit '' \<newline> ''))) \<noteq> []"
    by (simp add: read_file_def lit_def)
  have ws: "\<forall>c \<in> set (read_file (example_root @ [lit ''src'', lit ''blank.js''],
      Fileinfo (Some 3) (Some (lit '' \<newline> '')))). isspace c"
    by (simp add: read_file_def lit_def isspace_def)
  have "map_of d (relpath (fst (example_root @ [lit ''src'', lit ''blank.js''],
      Fileinfo (Some 3) (Some (lit '' \<newline> '')))) example_root) = Some EMPTY_MARKER"
    using whitespace_file_marker [OF m example_unique example_discovery example_blank_js ne ws]
    by simp
  then have "map_of d [lit ''src'', lit ''blank.js''] = Some EMPTY_MARKER"
    by (simp add: relpath_below)
  with m example_unique example_discovery show ?thesis by blast
qed

theorem degraded_backend_run_witness:
  "(\<exists>e. reply (failing_backend [] (lit ''p'', lit ''gemma:2b'')) = error_text e)
   \<and> find_code_files_bfs example_root example_tree = Inr example_files
   \<and> unique_names example_tree
   \<and> (\<exists>d reqs. main failing_backend (lit ''gemma:2b'') example_root example_tree
          = Inr (Summaries d, reqs)
        \<and> map fst d = map (\<lambda>f. relpath (fst f) example_root) example_files
        \<and> length reqs = 4)"
proof -
  have "reply (failing_backend rs r) = error_text (lit ''timed out'')" for rs r
    by (simp add: failing_backend_def reply_def)
  then have deg: "\<forall>rs r. \<exists>e. reply (failing_backend rs r) = error_text e"
    by blast
  from degraded_backend_run [OF deg example_discovery example_nonempty example_unique,
      of "lit ''gemma:2b''"]
  obtain d reqs where "main failing_backend (lit ''gemma:2b'') example_root example_tree
          = Inr (Summaries d, reqs)"
    and "map fst d = map (\<lambda>f. relpath (fst f) example_root) example_files"
    and "length reqs = sum_list (map (\<lambda>f. if strip (read_file f) = [] then 0
                  else length (chunks_from 0 (nat CHUNK_CHAR_SIZE) (read_file f)) + 1)
                example_files)"
    by blast
  then show ?thesis using deg example_discovery example_unique example_calls by auto
qed


end
